theory Spec2Isabelle
  imports Complex_Main
begin

section \<open>The camera grid: data model\<close>

text \<open>
  A shallow embedding of \<^verbatim>\<open>cameragrid.js\<close>. The file holds two revisions of one
  component; the controller below follows the first revision, and the second revision's
  \<^verbatim>\<open>findMinimumResolution_\<close>, the only function whose body differs, is embedded beside
  the first. (The constructor of the second revision leaves the cached resolutions and
  constraints \<^verbatim>\<open>undefined\<close> where the first sets them to 0 and \<^verbatim>\<open>null\<close>.)

  A JavaScript number is an IEEE 754 binary64 value: a finite value, which is a real
  number, an infinity or \<^verbatim>\<open>NaN\<close> (type \<open>number\<close>). The operators \<^verbatim>\<open>/\<close>, \<^verbatim>\<open>*\<close>, \<^verbatim>\<open>+\<close> and
  \<^verbatim>\<open>Math.sqrt\<close> round the exact result to the nearest binary64 value, ties to even, with
  overflow to an infinity and gradual underflow; a division by zero gives an infinity or
  \<^verbatim>\<open>NaN\<close>, and a comparison with \<^verbatim>\<open>NaN\<close> is false. The zero of the model carries no
  sign, so the model computes what the source computes as long as no negative number
  occurs; the sizes that a container reports are non-negative integers and the resolutions
  of a catalog are positive. The sizes of the container, the entries of the catalog and
  the cached resolutions, which are entries of the catalog, are finite and are kept as
  real numbers. Array indices are integers.
  A value that may be \<^verbatim>\<open>null\<close> or \<^verbatim>\<open>undefined\<close> is an option; the loose comparisons
  \<^verbatim>\<open>==\<close> and \<^verbatim>\<open>!=\<close> of the source identify \<^verbatim>\<open>null\<close> with \<^verbatim>\<open>undefined\<close> and
  with nothing else, as equality on options does. A call that does not return a state is
  the left injection of a sum: it raises a \<^verbatim>\<open>TypeError\<close>, by a property access on
  \<^verbatim>\<open>undefined\<close>, or it does not return at all, because a loop never ends.
  A name of the source that ends in an underscore ends in a prime here.
\<close>

datatype js_error = TypeError | NoReturn

datatype number = Finite real | PosInf | NegInf | NaN

datatype dimension = Width | Height

text \<open>
  A \<^verbatim>\<open>cameraGridCell\<close> element: the tokens of its \<^verbatim>\<open>className\<close> and, for each
  \<^verbatim>\<open>cameraGridImgContainer\<close> child in document order, the \<^verbatim>\<open>src\<close> of its image,
  read back as the string that was assigned. The listener of an image's load event
  (\<^verbatim>\<open>deletePreviousSiblings_\<close>) removes the containers before the loaded one; it touches
  no other part of the state and is not modelled, and the theorems on the controller hold
  for cells with any images.
\<close>

record cell =
  className :: "string list"
  imgs :: "string list"

datatype rule = ImageScaleRule | ContainerImageScaleRule

text \<open>
  The commands sent to the rendering surface and the network: a call of
  \<^verbatim>\<open>setUpscaleRule_\<close> on one of the two style rules, the creation of an image element
  with a given \<^verbatim>\<open>src\<close> in a cell (which starts the request of the feed), and a call of
  \<^verbatim>\<open>buildGrid_\<close> with the grid shape it lays out. The rows that \<^verbatim>\<open>buildGrid_\<close>
  creates are written to the document and never read back; they are not modelled.
\<close>

datatype dom_op =
    SetUpscaleRule rule "dimension option"
  | RequestImage int string
  | BuildGrid "number option" "number option"

record CameraGrid =
  offsetWidth :: real
  offsetHeight :: real
  sourceUrls' :: "string list"
  resolutions' :: "(real \<times> real) list"
  getUrl' :: "string option \<Rightarrow> real option \<Rightarrow> real option \<Rightarrow> string"
  tileScaleWidth' :: real
  tileScaleHeight' :: real
  gridWidthCells' :: "number option"
  gridHeightCells' :: "number option"
  imgWidthPx' :: "real option"
  imgHeightPx' :: "real option"
  constraint' :: "dimension option"
  containerImgWidthPx' :: "real option"
  ctonainerImgHeightPx' :: "real option"
  containerImgHeightPx' :: "real option"
  containerConstraint' :: "dimension option"
  selected' :: "int option"
  scanning' :: bool
  cells' :: "cell list"
  dom_log :: "dom_op list"

text \<open>The object returned by \<^verbatim>\<open>calculateGrid_\<close>.\<close>

record grid =
  gridWidthCells :: "number option"
  gridHeightCells :: "number option"
  constraint :: "dimension option"
  containerConstraint :: dimension
  cellWidthPx :: number
  cellHeightPx :: number

text \<open>The variables that the loop of \<^verbatim>\<open>calculateGrid_\<close> updates.\<close>

record grid_loop =
  minCells :: number
  maxScale :: number
  chosenWidth :: "number option"
  chosenHeight :: "number option"
  chosenConstraint :: "dimension option"

text \<open>The object returned by \<^verbatim>\<open>findMinimumResolution_\<close>.\<close>

record resolution =
  imgWidthPx :: real
  imgHeightPx :: real

section \<open>JavaScript primitives\<close>

text \<open>\<^verbatim>\<open>xs[i]\<close>: \<^verbatim>\<open>undefined\<close> outside the array.\<close>

definition js_index :: "'a list \<Rightarrow> int \<Rightarrow> 'a option" where
  "js_index xs i = (if 0 \<le> i \<and> i < int (length xs) then Some (xs ! nat i) else None)"

text \<open>\<^verbatim>\<open>ToNumber\<close> on an index that may be \<^verbatim>\<open>null\<close>: \<^verbatim>\<open>null\<close> converts to 0.\<close>

definition toNumber :: "int option \<Rightarrow> int" where
  "toNumber v = (case v of None \<Rightarrow> 0 | Some n \<Rightarrow> n)"

text \<open>\<^verbatim>\<open>a % b\<close> for a divisor other than 0: the sign follows the dividend.\<close>

definition js_rem :: "int \<Rightarrow> int \<Rightarrow> int" where
  "js_rem a b = sgn a * (\<bar>a\<bar> mod \<bar>b\<bar>)"

text \<open>\<^verbatim>\<open>Number.MAX_VALUE\<close>, the largest finite double.\<close>

definition Number_MAX_VALUE :: real where
  "Number_MAX_VALUE = (2 ^ 53 - 1) * 2 ^ 971"

subsection \<open>Numbers\<close>

text \<open>
  The binary64 values are 0 and the numbers \<open>m * 2\<^sup>e\<close> with an integer \<open>m\<close> of magnitude
  below \<open>2\<^sup>5\<^sup>3\<close> and \<open>e\<close> from -1074 to 971. The exponent of the unit in the last place of
  a real number other than 0: 52 below the exponent of its leading binary digit, and -1074
  for the subnormal numbers.
\<close>

definition ulp_exponent :: "real \<Rightarrow> int" where
  "ulp_exponent x = max (\<lfloor>log 2 \<bar>x\<bar>\<rfloor> - 52) (- 1074)"

text \<open>The nearest integer; of the two nearest ones, the even one.\<close>

definition roundTiesToEven :: "real \<Rightarrow> int" where
  "roundTiesToEven y =
     (if y - of_int \<lfloor>y\<rfloor> < 1 / 2 then \<lfloor>y\<rfloor>
      else if 1 / 2 < y - of_int \<lfloor>y\<rfloor> then \<lfloor>y\<rfloor> + 1
      else if even \<lfloor>y\<rfloor> then \<lfloor>y\<rfloor> else \<lfloor>y\<rfloor> + 1)"

text \<open>
  The number that an exact result is rounded to: the nearest multiple of the unit in the
  last place, and an infinity when that multiple exceeds the largest finite double.
\<close>

definition binary64 :: "real \<Rightarrow> number" where
  "binary64 x =
     (if x = 0 then Finite 0
      else
        (let r = of_int (roundTiesToEven (x / 2 powr of_int (ulp_exponent x)))
                   * 2 powr of_int (ulp_exponent x)
         in if Number_MAX_VALUE < \<bar>r\<bar> then (if 0 < x then PosInf else NegInf) else Finite r))"

text \<open>\<^verbatim>\<open>a / b\<close>.\<close>

fun num_div :: "number \<Rightarrow> number \<Rightarrow> number" where
  "num_div NaN b = NaN"
| "num_div a NaN = NaN"
| "num_div (Finite x) (Finite y) =
     (if y = 0 then (if x = 0 then NaN else if 0 < x then PosInf else NegInf)
      else binary64 (x / y))"
| "num_div (Finite x) b = Finite 0"
| "num_div a (Finite y) = (if (0 \<le> y) = (a = PosInf) then PosInf else NegInf)"
| "num_div a b = NaN"

text \<open>\<^verbatim>\<open>a * b\<close>.\<close>

fun num_mul :: "number \<Rightarrow> number \<Rightarrow> number" where
  "num_mul NaN b = NaN"
| "num_mul a NaN = NaN"
| "num_mul (Finite x) (Finite y) = binary64 (x * y)"
| "num_mul (Finite x) b =
     (if x = 0 then NaN else if (0 < x) = (b = PosInf) then PosInf else NegInf)"
| "num_mul a (Finite y) =
     (if y = 0 then NaN else if (0 < y) = (a = PosInf) then PosInf else NegInf)"
| "num_mul a b = (if a = b then PosInf else NegInf)"

text \<open>\<^verbatim>\<open>a + b\<close>.\<close>

fun num_add :: "number \<Rightarrow> number \<Rightarrow> number" where
  "num_add NaN b = NaN"
| "num_add a NaN = NaN"
| "num_add (Finite x) (Finite y) = binary64 (x + y)"
| "num_add (Finite x) b = b"
| "num_add a (Finite y) = a"
| "num_add a b = (if a = b then a else NaN)"

fun Math_sqrt :: "number \<Rightarrow> number" where
  "Math_sqrt (Finite x) = (if x < 0 then NaN else binary64 (sqrt x))"
| "Math_sqrt PosInf = PosInf"
| "Math_sqrt a = NaN"

text \<open>The ceiling and the floor of a binary64 value are binary64 values.\<close>

fun Math_ceil :: "number \<Rightarrow> number" where
  "Math_ceil (Finite x) = Finite (of_int \<lceil>x\<rceil>)"
| "Math_ceil a = a"

fun Math_floor :: "number \<Rightarrow> number" where
  "Math_floor (Finite x) = Finite (of_int \<lfloor>x\<rfloor>)"
| "Math_floor a = a"

text \<open>\<^verbatim>\<open>a < b\<close> and \<^verbatim>\<open>a == b\<close> on numbers; \<^verbatim>\<open>a > b\<close> is \<^verbatim>\<open>b < a\<close>.\<close>

fun num_less :: "number \<Rightarrow> number \<Rightarrow> bool" where
  "num_less (Finite x) (Finite y) = (x < y)"
| "num_less (Finite x) PosInf = True"
| "num_less NegInf (Finite y) = True"
| "num_less NegInf PosInf = True"
| "num_less a b = False"

fun num_eq :: "number \<Rightarrow> number \<Rightarrow> bool" where
  "num_eq (Finite x) (Finite y) = (x = y)"
| "num_eq PosInf PosInf = True"
| "num_eq NegInf NegInf = True"
| "num_eq a b = False"

text \<open>
  \<^verbatim>\<open>a != b\<close> and \<^verbatim>\<open>a < b\<close> where a side may be \<^verbatim>\<open>undefined\<close>: \<^verbatim>\<open>undefined\<close> differs
  from every number, and converts to \<^verbatim>\<open>NaN\<close> in a comparison by \<^verbatim>\<open><\<close>.
\<close>

definition js_ne :: "number option \<Rightarrow> number option \<Rightarrow> bool" where
  "js_ne a b =
     (case a of
        None \<Rightarrow> b \<noteq> None
      | Some x \<Rightarrow> (case b of None \<Rightarrow> True | Some y \<Rightarrow> \<not> num_eq x y))"

definition js_less :: "number \<Rightarrow> number option \<Rightarrow> bool" where
  "js_less a b = (case b of None \<Rightarrow> False | Some y \<Rightarrow> num_less a y)"

text \<open>Sequencing of two steps of which the first may throw.\<close>

definition andThen :: "js_error + 'a \<Rightarrow> ('a \<Rightarrow> js_error + 'b) \<Rightarrow> js_error + 'b" where
  "andThen m f = (case m of Inl e \<Rightarrow> Inl e | Inr x \<Rightarrow> f x)"

section \<open>The resolution catalog\<close>

definition defaultResolutions' :: "(real \<times> real) list" where
  "defaultResolutions' =
     [(160, 120), (240, 180), (320, 240), (480, 360),
      (640, 480), (800, 600), (1024, 768), (1280, 960)]"

text \<open>
  First revision. The loop returns at the first entry that is the last one or is not
  smaller than the target in both dimensions; on an empty catalog the loop body never
  runs and the function returns \<^verbatim>\<open>undefined\<close>.
\<close>

function findMinimumResolution_loop ::
  "(real \<times> real) list \<Rightarrow> real \<Rightarrow> real \<Rightarrow> nat \<Rightarrow> resolution option" where
  "findMinimumResolution_loop rs tileWidth tileHeight i =
     (if i < length rs then
        (let resolution = rs ! i in
         if i + 1 < length rs \<and> (fst resolution < tileWidth \<and> snd resolution < tileHeight)
         then findMinimumResolution_loop rs tileWidth tileHeight (i + 1)
         else Some \<lparr>imgWidthPx = fst resolution, imgHeightPx = snd resolution\<rparr>)
      else None)"
  by pat_completeness auto
termination
  by (relation "measure (\<lambda>(rs, tileWidth, tileHeight, i). length rs - i)") auto

declare findMinimumResolution_loop.simps [simp del]

definition findMinimumResolution' :: "CameraGrid \<Rightarrow> real \<Rightarrow> real \<Rightarrow> resolution option" where
  "findMinimumResolution' this tileWidth tileHeight =
     findMinimumResolution_loop (resolutions' this) tileWidth tileHeight 0"

text \<open>
  The same function for a target that may be infinite or \<^verbatim>\<open>NaN\<close>, as the cell size that
  \<^verbatim>\<open>calculateGrid_\<close> returns can be: the comparisons are those of numbers. On a finite
  target it is \<open>findMinimumResolution'\<close> (lemma \<open>findMinimumResolution_num_Finite\<close>).
\<close>

function findMinimumResolution_num_loop ::
  "(real \<times> real) list \<Rightarrow> number \<Rightarrow> number \<Rightarrow> nat \<Rightarrow> resolution option" where
  "findMinimumResolution_num_loop rs tileWidth tileHeight i =
     (if i < length rs then
        (let resolution = rs ! i in
         if i + 1 < length rs
            \<and> (num_less (Finite (fst resolution)) tileWidth
                 \<and> num_less (Finite (snd resolution)) tileHeight)
         then findMinimumResolution_num_loop rs tileWidth tileHeight (i + 1)
         else Some \<lparr>imgWidthPx = fst resolution, imgHeightPx = snd resolution\<rparr>)
      else None)"
  by pat_completeness auto
termination
  by (relation "measure (\<lambda>(rs, tileWidth, tileHeight, i). length rs - i)") auto

declare findMinimumResolution_num_loop.simps [simp del]

definition findMinimumResolution_num :: "CameraGrid \<Rightarrow> number \<Rightarrow> number \<Rightarrow> resolution option" where
  "findMinimumResolution_num this tileWidth tileHeight =
     findMinimumResolution_num_loop (resolutions' this) tileWidth tileHeight 0"

text \<open>
  Second revision. The loop has no guard on the last entry; when it runs off the end the
  function logs a message and returns the last entry. The result carries the messages
  written to the console. On an empty catalog \<^verbatim>\<open>lastResolution\<close> is \<^verbatim>\<open>undefined\<close> and
  reading its first component throws.
\<close>

definition upscale_message :: string where
  "upscale_message =
     ''Your screen is larger than the largest feed resolution. Images will be scaled up''"

function findMinimumResolution2_loop ::
  "(real \<times> real) list \<Rightarrow> real \<Rightarrow> real \<Rightarrow> nat \<Rightarrow> js_error + (string list \<times> resolution)" where
  "findMinimumResolution2_loop rs tileWidth tileHeight i =
     (if i < length rs then
        (let resolution = rs ! i in
         if fst resolution < tileWidth \<and> snd resolution < tileHeight
         then findMinimumResolution2_loop rs tileWidth tileHeight (i + 1)
         else Inr ([], \<lparr>imgWidthPx = fst resolution, imgHeightPx = snd resolution\<rparr>))
      else
        (case js_index rs (int (length rs) - 1) of
           None \<Rightarrow> Inl TypeError
         | Some lastResolution \<Rightarrow>
             Inr ([upscale_message],
                  \<lparr>imgWidthPx = fst lastResolution, imgHeightPx = snd lastResolution\<rparr>)))"
  by pat_completeness auto
termination
  by (relation "measure (\<lambda>(rs, tileWidth, tileHeight, i). length rs - i)") auto

declare findMinimumResolution2_loop.simps [simp del]

definition findMinimumResolution2' ::
  "CameraGrid \<Rightarrow> real \<Rightarrow> real \<Rightarrow> js_error + (string list \<times> resolution)" where
  "findMinimumResolution2' this tileWidth tileHeight =
     findMinimumResolution2_loop (resolutions' this) tileWidth tileHeight 0"

section \<open>The grid solver\<close>

definition scaleFactor :: "CameraGrid \<Rightarrow> number" where
  "scaleFactor this =
     num_div (num_div (Finite (offsetHeight this)) (Finite (tileScaleHeight' this)))
       (num_div (Finite (offsetWidth this)) (Finite (tileScaleWidth' this)))"

definition numTiles :: "CameraGrid \<Rightarrow> int" where
  "numTiles this = int (length (sourceUrls' this))"

definition gridHeight :: "CameraGrid \<Rightarrow> number" where
  "gridHeight this = Math_sqrt (num_mul (scaleFactor this) (Finite (real_of_int (numTiles this))))"

definition gridWidth :: "CameraGrid \<Rightarrow> number" where
  "gridWidth this = Math_sqrt (num_div (Finite (real_of_int (numTiles this))) (scaleFactor this))"

definition gridOptions :: "CameraGrid \<Rightarrow> (number \<times> number) list" where
  "gridOptions this =
     [(Math_ceil (gridWidth this), Math_floor (gridHeight this)),
      (Math_floor (gridWidth this), Math_ceil (gridHeight this)),
      (Math_ceil (gridWidth this), Math_ceil (gridHeight this))]"

definition widthScale :: "CameraGrid \<Rightarrow> number \<times> number \<Rightarrow> number" where
  "widthScale this gridOption =
     num_div (num_div (Finite (offsetWidth this)) (fst gridOption)) (Finite (tileScaleWidth' this))"

definition heightScale :: "CameraGrid \<Rightarrow> number \<times> number \<Rightarrow> number" where
  "heightScale this gridOption =
     num_div (num_div (Finite (offsetHeight this)) (snd gridOption))
       (Finite (tileScaleHeight' this))"

text \<open>The scale of a candidate and the dimension that binds it.\<close>

definition scale :: "CameraGrid \<Rightarrow> number \<times> number \<Rightarrow> number" where
  "scale this gridOption =
     (if num_less (widthScale this gridOption) (heightScale this gridOption)
      then widthScale this gridOption else heightScale this gridOption)"

definition constraint_of :: "CameraGrid \<Rightarrow> number \<times> number \<Rightarrow> dimension" where
  "constraint_of this gridOption =
     (if num_less (widthScale this gridOption) (heightScale this gridOption)
      then Width else Height)"

definition numCells :: "number \<times> number \<Rightarrow> number" where
  "numCells gridOption = num_mul (fst gridOption) (snd gridOption)"

text \<open>One iteration of the loop over the candidates; each \<^verbatim>\<open>continue\<close> keeps the variables.\<close>

definition grid_step :: "CameraGrid \<Rightarrow> grid_loop \<Rightarrow> number \<times> number \<Rightarrow> grid_loop" where
  "grid_step this vars gridOption =
     (if num_less (numCells gridOption) (Finite (real_of_int (numTiles this))) then vars
      else if num_less (scale this gridOption) (maxScale vars) then vars
      else if num_eq (scale this gridOption) (maxScale vars)
              \<and> num_less (minCells vars) (numCells gridOption) then vars
      else \<lparr>minCells = numCells gridOption,
            maxScale = scale this gridOption,
            chosenWidth = Some (fst gridOption),
            chosenHeight = Some (snd gridOption),
            chosenConstraint = Some (constraint_of this gridOption)\<rparr>)"

definition grid_init :: grid_loop where
  "grid_init = \<lparr>minCells = Finite Number_MAX_VALUE, maxScale = Finite 0,
                chosenWidth = None, chosenHeight = None, chosenConstraint = None\<rparr>"

definition grid_search :: "CameraGrid \<Rightarrow> grid_loop" where
  "grid_search this = foldl (grid_step this) grid_init (gridOptions this)"

definition calculateGrid' :: "CameraGrid \<Rightarrow> grid" where
  "calculateGrid' this =
     (let vars = grid_search this in
      \<lparr>gridWidthCells = chosenWidth vars,
       gridHeightCells = chosenHeight vars,
       constraint = chosenConstraint vars,
       containerConstraint = (if num_less (Finite 1) (scaleFactor this) then Width else Height),
       cellWidthPx = num_mul (Finite (tileScaleWidth' this)) (maxScale vars),
       cellHeightPx = num_mul (Finite (tileScaleHeight' this)) (maxScale vars)\<rparr>)"

section \<open>The controller\<close>

subsection \<open>Style classes\<close>

text \<open>
  On the tokens of a \<^verbatim>\<open>className\<close>. \<^verbatim>\<open>removeCSSClass_\<close> deletes the first occurrence
  (\<^verbatim>\<open>indexOf\<close>); the hole that \<^verbatim>\<open>delete\<close> leaves joins to an empty token, which the
  next split filters out.
\<close>

definition addCSSClass' :: "string list \<Rightarrow> string \<Rightarrow> string list" where
  "addCSSClass' classes name = (if name \<in> set classes then classes else classes @ [name])"

definition removeCSSClass' :: "string list \<Rightarrow> string \<Rightarrow> string list" where
  "removeCSSClass' classes name = remove1 name classes"

text \<open>
  Either call on \<^verbatim>\<open>this.cells_[index]\<close>: reading \<^verbatim>\<open>className\<close> of \<^verbatim>\<open>undefined\<close>
  throws when the index is outside the cells.
\<close>

definition onCell ::
  "(string list \<Rightarrow> string \<Rightarrow> string list) \<Rightarrow> int \<Rightarrow> CameraGrid \<Rightarrow> js_error + CameraGrid" where
  "onCell f index this =
     (case js_index (cells' this) index of
        None \<Rightarrow> Inl TypeError
      | Some node \<Rightarrow>
          Inr (this\<lparr>cells' := (cells' this)[nat index :=
                 node\<lparr>className := f (className node) ''cameraGridFullScreen''\<rparr>]\<rparr>))"

subsection \<open>Images\<close>

definition imgUrl :: "int \<Rightarrow> CameraGrid \<Rightarrow> string" where
  "imgUrl index this =
     (let sourceUrl = js_index (sourceUrls' this) index in
      if scanning' this \<or> Some index = selected' this
      then getUrl' this sourceUrl (containerImgWidthPx' this) (containerImgHeightPx' this)
      else getUrl' this sourceUrl (imgWidthPx' this) (imgHeightPx' this))"

definition buildImage' :: "int \<Rightarrow> CameraGrid \<Rightarrow> js_error + CameraGrid" where
  "buildImage' index this =
     (case js_index (cells' this) index of
        None \<Rightarrow> Inl TypeError
      | Some cell \<Rightarrow>
          if imgs cell \<noteq> [] \<and> last (imgs cell) = imgUrl index this then Inr this
          else Inr (this\<lparr>cells' := (cells' this)[nat index :=
                            cell\<lparr>imgs := imgs cell @ [imgUrl index this]\<rparr>],
                         dom_log := dom_log this @ [RequestImage index (imgUrl index this)]\<rparr>))"

fun buildImages_from :: "nat \<Rightarrow> nat \<Rightarrow> CameraGrid \<Rightarrow> js_error + CameraGrid" where
  "buildImages_from 0 i this = Inr this"
| "buildImages_from (Suc n) i this =
     andThen (buildImage' (int i) this) (buildImages_from n (Suc i))"

text \<open>The loop runs \<^verbatim>\<open>i\<close> from 0 up to the number of source URLs.\<close>

definition buildImages' :: "CameraGrid \<Rightarrow> js_error + CameraGrid" where
  "buildImages' this = buildImages_from (length (sourceUrls' this)) 0 this"

subsection \<open>Selection and scanning\<close>

definition disableScanning' :: "CameraGrid \<Rightarrow> js_error + CameraGrid" where
  "disableScanning' this =
     (if scanning' this then buildImages' (this\<lparr>scanning' := False\<rparr>) else Inr this)"

text \<open>
  \<^verbatim>\<open>setSelected_\<close> in two halves: the change of the selection, which yields the old
  index with the state, and the refresh of the two images.
\<close>

definition select_toggle :: "int \<Rightarrow> CameraGrid \<Rightarrow> js_error + (int option \<times> CameraGrid)" where
  "select_toggle index this =
     (if selected' this = Some index then
        andThen (onCell removeCSSClass' index this)
          (\<lambda>this. Inr (Some index, this\<lparr>selected' := None\<rparr>))
      else
        andThen
          (case selected' this of
             None \<Rightarrow> Inr (None, this)
           | Some s \<Rightarrow> andThen (onCell removeCSSClass' s this) (\<lambda>this. Inr (Some s, this)))
          (\<lambda>(old_index, this).
             andThen (onCell addCSSClass' index this)
               (\<lambda>this. Inr (old_index, this\<lparr>selected' := Some index\<rparr>))))"

definition select_refresh :: "int option \<Rightarrow> CameraGrid \<Rightarrow> js_error + CameraGrid" where
  "select_refresh old_index this =
     (if containerImgWidthPx' this \<noteq> imgWidthPx' this
         \<or> containerImgHeightPx' this \<noteq> imgHeightPx' this
      then
        andThen (case old_index of None \<Rightarrow> Inr this | Some i \<Rightarrow> buildImage' i this)
          (\<lambda>this. case selected' this of None \<Rightarrow> Inr this | Some s \<Rightarrow> buildImage' s this)
      else Inr this)"

definition setSelected' :: "int \<Rightarrow> CameraGrid \<Rightarrow> js_error + CameraGrid" where
  "setSelected' index this =
     andThen (select_toggle index this) (\<lambda>(old_index, this). select_refresh old_index this)"

definition setSelectedNoScan' :: "int \<Rightarrow> CameraGrid \<Rightarrow> js_error + CameraGrid" where
  "setSelectedNoScan' index this = andThen (setSelected' index this) disableScanning'"

text \<open>
  \<^verbatim>\<open>null > 0\<close> is false and \<^verbatim>\<open>null + 1\<close> is 1. With no cell the remainder is
  \<^verbatim>\<open>NaN\<close>, and \<^verbatim>\<open>setSelected_(NaN)\<close> throws on \<^verbatim>\<open>this.cells_[NaN]\<close>, which is
  \<^verbatim>\<open>undefined\<close> (or before, on the cell of the old selection).
\<close>

definition scanLeft' :: "CameraGrid \<Rightarrow> js_error + CameraGrid" where
  "scanLeft' this =
     setSelected' (if toNumber (selected' this) > 0 then toNumber (selected' this) - 1
                   else int (length (cells' this)) - 1) this"

definition scanRight' :: "CameraGrid \<Rightarrow> js_error + CameraGrid" where
  "scanRight' this =
     (if length (cells' this) = 0 then Inl TypeError
      else setSelected' (js_rem (toNumber (selected' this) + 1) (int (length (cells' this)))) this)"

subsection \<open>The recompute pass\<close>

definition setUpscaleRule' :: "dimension option \<Rightarrow> rule \<Rightarrow> CameraGrid \<Rightarrow> CameraGrid" where
  "setUpscaleRule' c r this = this\<lparr>dom_log := dom_log this @ [SetUpscaleRule r c]\<rparr>"

text \<open>
  The two loops of \<^verbatim>\<open>buildGrid_\<close>. Their bodies move the cells into the rows, which are
  written to the document and never read back; what the model keeps is whether the loops
  end. A counter runs from 0 in steps of 1 while it is below the bound; the loop over a row
  runs once for each row.
\<close>

partial_function (option) buildGrid_row :: "number option \<Rightarrow> number \<Rightarrow> unit option" where
  "buildGrid_row width x =
     (if js_less x width then buildGrid_row width (num_add x (Finite 1)) else Some ())"

partial_function (option) buildGrid_rows ::
  "number option \<Rightarrow> number option \<Rightarrow> number \<Rightarrow> unit option" where
  "buildGrid_rows width height y =
     (if js_less y height
      then Option.bind (buildGrid_row width (Finite 0))
             (\<lambda>u. buildGrid_rows width height (num_add y (Finite 1)))
      else Some ())"

definition buildGrid' :: "CameraGrid \<Rightarrow> js_error + CameraGrid" where
  "buildGrid' this =
     (case buildGrid_rows (gridWidthCells' this) (gridHeightCells' this) (Finite 0) of
        None \<Rightarrow> Inl NoReturn
      | Some u \<Rightarrow>
          Inr (this\<lparr>dom_log := dom_log this
                       @ [BuildGrid (gridWidthCells' this) (gridHeightCells' this)]\<rparr>))"

definition rebuild_constraint :: "grid \<Rightarrow> CameraGrid \<Rightarrow> CameraGrid" where
  "rebuild_constraint g this =
     (if constraint g \<noteq> constraint' this
      then setUpscaleRule' (constraint g) ImageScaleRule (this\<lparr>constraint' := constraint g\<rparr>)
      else this)"

definition rebuild_containerConstraint :: "grid \<Rightarrow> CameraGrid \<Rightarrow> CameraGrid" where
  "rebuild_containerConstraint g this =
     (if Some (containerConstraint g) \<noteq> containerConstraint' this
      then setUpscaleRule' (Some (containerConstraint g)) ContainerImageScaleRule
             (this\<lparr>containerConstraint' := Some (containerConstraint g)\<rparr>)
      else this)"

definition rebuild_resolution :: "resolution \<Rightarrow> CameraGrid \<Rightarrow> js_error + CameraGrid" where
  "rebuild_resolution r this =
     (if Some (imgWidthPx r) \<noteq> imgWidthPx' this \<or> Some (imgHeightPx r) \<noteq> imgHeightPx' this
      then buildImages' (this\<lparr>imgWidthPx' := Some (imgWidthPx r),
                              imgHeightPx' := Some (imgHeightPx r)\<rparr>)
      else Inr this)"

definition rebuild_containerResolution :: "resolution \<Rightarrow> CameraGrid \<Rightarrow> js_error + CameraGrid" where
  "rebuild_containerResolution r this =
     (if Some (imgWidthPx r) \<noteq> containerImgWidthPx' this
         \<or> Some (imgHeightPx r) \<noteq> containerImgHeightPx' this
      then
        (let this = this\<lparr>containerImgWidthPx' := Some (imgWidthPx r),
                         containerImgHeightPx' := Some (imgHeightPx r)\<rparr>
         in case selected' this of None \<Rightarrow> Inr this | Some s \<Rightarrow> buildImage' s this)
      else Inr this)"

definition rebuild_grid :: "grid \<Rightarrow> CameraGrid \<Rightarrow> js_error + CameraGrid" where
  "rebuild_grid g this =
     (if js_ne (gridWidthCells g) (gridWidthCells' this)
         \<or> js_ne (gridHeightCells g) (gridHeightCells' this)
      then buildGrid' (this\<lparr>gridWidthCells' := gridWidthCells g,
                            gridHeightCells' := gridHeightCells g\<rparr>)
      else Inr this)"

text \<open>
  The three values are computed first; reading \<^verbatim>\<open>imgWidthPx\<close> of an \<^verbatim>\<open>undefined\<close>
  resolution throws at the third comparison, after the two style rules were updated, or
  at the fourth. The cached resolutions and the recomputed ones are entries of the catalog
  or the initial values, on which \<^verbatim>\<open>!=\<close> is the inequality of options; the grid shape is
  compared as numbers, and a shape of \<^verbatim>\<open>NaN\<close> differs from itself.
\<close>

definition rebuildIfNeeded' :: "CameraGrid \<Rightarrow> js_error + CameraGrid" where
  "rebuildIfNeeded' this =
     (let grid = calculateGrid' this;
          resolution = findMinimumResolution_num this (cellWidthPx grid) (cellHeightPx grid);
          containerResolution =
            findMinimumResolution_num this (Finite (offsetWidth this)) (Finite (offsetHeight this));
          this = rebuild_containerConstraint grid (rebuild_constraint grid this)
      in case resolution of
           None \<Rightarrow> Inl TypeError
         | Some r \<Rightarrow>
             andThen (rebuild_resolution r this)
               (\<lambda>this. case containerResolution of
                          None \<Rightarrow> Inl TypeError
                        | Some cr \<Rightarrow>
                            andThen (rebuild_containerResolution cr this) (rebuild_grid grid)))"

subsection \<open>Events\<close>

text \<open>
  \<^verbatim>\<open>String.fromCharCode\<close> keeps the low 16 bits of the code; the cases of the switch are
  the code units of the digits (48 to 57), of \<^verbatim>\<open>s\<close> (115) and of the space (32).
\<close>

definition fromCharCode :: "int \<Rightarrow> int" where
  "fromCharCode charCode = charCode mod 65536"

definition onKeyPress' :: "int \<Rightarrow> CameraGrid \<Rightarrow> js_error + CameraGrid" where
  "onKeyPress' charCode this =
     (let character = fromCharCode charCode in
      if character \<in> {49, 50, 51, 52, 53, 54, 55, 56, 57, 48} then
        (let index = charCode - 49;
             index = (if index = -1 then 10 else index)
         in if index < int (length (cells' this)) then setSelectedNoScan' index this
            else Inr this)
      else if character = 115 then
        (if scanning' this \<and> selected' this \<noteq> None
         then setSelectedNoScan' (toNumber (selected' this)) this
         else (let this = this\<lparr>scanning' := True\<rparr>
               in if selected' this = None then setSelected' 0 this else Inr this))
      else if character = 32 then Inr (this\<lparr>scanning' := \<not> scanning' this\<rparr>)
      else Inr this)"

definition onKeyDown' :: "int \<Rightarrow> CameraGrid \<Rightarrow> js_error + CameraGrid" where
  "onKeyDown' keyCode this =
     (if keyCode = 27 then
        (case selected' this of
           None \<Rightarrow> Inr this
         | Some s \<Rightarrow> setSelectedNoScan' s this)
      else if keyCode = 37 then
        (if selected' this \<noteq> None then andThen (scanLeft' this) disableScanning' else Inr this)
      else if keyCode = 39 then
        (if selected' this \<noteq> None then andThen (scanRight' this) disableScanning' else Inr this)
      else Inr this)"

definition onScanTimer' :: "CameraGrid \<Rightarrow> js_error + CameraGrid" where
  "onScanTimer' this =
     (if \<not> scanning' this \<or> selected' this = None then Inr this else scanRight' this)"

text \<open>
  A click on an image container runs \<^verbatim>\<open>setSelected_\<close> with the index bound when
  \<^verbatim>\<open>buildImage_\<close> created the container, the index of the cell that holds it.
\<close>

definition onClick' :: "int \<Rightarrow> CameraGrid \<Rightarrow> js_error + CameraGrid" where
  "onClick' index this = setSelected' index this"

text \<open>A resize of the window: the container reports its new size to the recompute pass.\<close>

definition onResize' :: "real \<Rightarrow> real \<Rightarrow> CameraGrid \<Rightarrow> js_error + CameraGrid" where
  "onResize' w h this = rebuildIfNeeded' (this\<lparr>offsetWidth := w, offsetHeight := h\<rparr>)"

subsection \<open>Construction\<close>

text \<open>
  The constructor of the first revision, for a container of the given size. An omitted
  catalog is \<^verbatim>\<open>None\<close>; an empty array is truthy and is kept, and reading its first entry's
  width throws. The URL builder is the callback passed, or the default one when the caller
  passes none; the default formats numbers as text and is taken as given. The style sheet
  that \<^verbatim>\<open>buildStylesheet_\<close> inserts is written once and never read. The field
  \<^verbatim>\<open>ctonainerImgHeightPx_\<close> is the one the source initialises, so that
  \<^verbatim>\<open>containerImgHeightPx_\<close> starts \<^verbatim>\<open>undefined\<close>.
\<close>

definition buildCells' :: "CameraGrid \<Rightarrow> CameraGrid" where
  "buildCells' this =
     this\<lparr>cells' := replicate (length (sourceUrls' this)) \<lparr>className = [], imgs = []\<rparr>\<rparr>"

text \<open>\<^verbatim>\<open>resolutions || this.defaultResolutions_\<close>.\<close>

definition catalog_of :: "(real \<times> real) list option \<Rightarrow> (real \<times> real) list" where
  "catalog_of resolutions = (case resolutions of None \<Rightarrow> defaultResolutions' | Some rs \<Rightarrow> rs)"

definition new_CameraGrid ::
  "real \<Rightarrow> real \<Rightarrow> string list \<Rightarrow> (real \<times> real) list option
     \<Rightarrow> (string option \<Rightarrow> real option \<Rightarrow> real option \<Rightarrow> string) \<Rightarrow> js_error + CameraGrid" where
  "new_CameraGrid w h sourceUrls resolutions getUrl =
     (let rs = catalog_of resolutions in
      case js_index rs 0 of
        None \<Rightarrow> Inl TypeError
      | Some r0 \<Rightarrow>
          rebuildIfNeeded' (buildCells'
            \<lparr>offsetWidth = w, offsetHeight = h,
             sourceUrls' = sourceUrls, resolutions' = rs, getUrl' = getUrl,
             tileScaleWidth' = fst r0, tileScaleHeight' = snd r0,
             gridWidthCells' = Some (Finite 0), gridHeightCells' = Some (Finite 0),
             imgWidthPx' = Some 0, imgHeightPx' = Some 0, constraint' = None,
             containerImgWidthPx' = Some 0, ctonainerImgHeightPx' = Some 0,
             containerImgHeightPx' = None, containerConstraint' = None,
             selected' = None, scanning' = False, cells' = [], dom_log = []\<rparr>))"

section \<open>Specification vocabulary\<close>

text \<open>A catalog entry as the object that \<^verbatim>\<open>findMinimumResolution_\<close> returns.\<close>

definition as_resolution :: "real \<times> real \<Rightarrow> resolution" where
  "as_resolution r = \<lparr>imgWidthPx = fst r, imgHeightPx = snd r\<rparr>"

text \<open>An entry covers a target when its width and its height are each at least the target's.\<close>

definition covers :: "real \<Rightarrow> real \<Rightarrow> real \<times> real \<Rightarrow> bool" where
  "covers w h r = (w \<le> fst r \<and> h \<le> snd r)"

text \<open>An entry reaches a target when its width or its height is at least the target's.\<close>

definition reaches :: "real \<Rightarrow> real \<Rightarrow> real \<times> real \<Rightarrow> bool" where
  "reaches w h r = (w \<le> fst r \<or> h \<le> snd r)"

text \<open>
  The contract of the catalog in the specification's words: the first entry that covers
  the target, else the last entry.
\<close>

definition smallestCovering :: "(real \<times> real) list \<Rightarrow> real \<Rightarrow> real \<Rightarrow> real \<times> real" where
  "smallestCovering rs w h = (case find (covers w h) rs of Some r \<Rightarrow> r | None \<Rightarrow> last rs)"

definition firstReaching :: "(real \<times> real) list \<Rightarrow> real \<Rightarrow> real \<Rightarrow> real \<times> real" where
  "firstReaching rs w h = (case find (reaches w h) rs of Some r \<Rightarrow> r | None \<Rightarrow> last rs)"

text \<open>A catalog is ascending when both dimensions grow strictly along it.\<close>

definition ascending :: "(real \<times> real) list \<Rightarrow> bool" where
  "ascending rs = sorted_wrt (\<lambda>a b. fst a < fst b \<and> snd a < snd b) rs"

text \<open>
  The invariants of the data model on a catalog: at least one entry, ascending, every
  dimension positive.
\<close>

definition catalog_ok :: "(real \<times> real) list \<Rightarrow> bool" where
  "catalog_ok rs = (rs \<noteq> [] \<and> ascending rs \<and> list_all (\<lambda>r. 0 < fst r \<and> 0 < snd r) rs)"

section \<open>Vocabulary of the grid solve\<close>

text \<open>
  A positive count of pixels. The sizes that a container reports (\<^verbatim>\<open>offsetWidth\<close>,
  \<^verbatim>\<open>offsetHeight\<close>) are integers of the type \<^verbatim>\<open>long\<close>, and the resolutions of a catalog
  are integers by the data model: a positive one is at least 1 and at most \<open>2\<^sup>3\<^sup>1\<close>.
\<close>

definition pixels :: "real \<Rightarrow> bool" where
  "pixels x = (1 \<le> x \<and> x \<le> 2 ^ 31)"

text \<open>
  The tile scale is a positive count of pixels in each dimension, and the feeds are fewer
  than \<open>2\<^sup>3\<^sup>2\<close>, as the elements of an array are.
\<close>

definition scale_ok :: "CameraGrid \<Rightarrow> bool" where
  "scale_ok this =
     (pixels (tileScaleWidth' this) \<and> pixels (tileScaleHeight' this)
      \<and> numTiles this < 2 ^ 32)"

text \<open>
  The inputs on which the solve is specified: a container and a tile scale of positive
  dimensions and at least one tile.
\<close>

definition geometry_ok :: "CameraGrid \<Rightarrow> bool" where
  "geometry_ok this =
     (pixels (offsetWidth this) \<and> pixels (offsetHeight this) \<and> scale_ok this
      \<and> 1 \<le> numTiles this)"

text \<open>A candidate is feasible when the loop does not skip it for seating too few tiles.\<close>

definition feasible :: "CameraGrid \<Rightarrow> number \<times> number \<Rightarrow> bool" where
  "feasible this c = (\<not> num_less (numCells c) (Finite (real_of_int (numTiles this))))"

text \<open>
  Candidate \<open>d\<close> is no better than \<open>c\<close>: its scale is smaller, or the scales are equal and
  it has no fewer cells. The scales and the cell counts are the numbers that the solver
  computes.
\<close>

definition no_better :: "CameraGrid \<Rightarrow> number \<times> number \<Rightarrow> number \<times> number \<Rightarrow> bool" where
  "no_better this d c =
     (num_less (scale this d) (scale this c)
      \<or> (num_eq (scale this d) (scale this c) \<and> \<not> num_less (numCells d) (numCells c)))"

text \<open>
  A candidate is optimal among \<open>cs\<close> when it is feasible and no feasible candidate of
  \<open>cs\<close> has a larger scale, or the same scale and fewer cells.
\<close>

definition optimal :: "CameraGrid \<Rightarrow> (number \<times> number) list \<Rightarrow> number \<times> number \<Rightarrow> bool" where
  "optimal this cs c = (feasible this c \<and> (\<forall>d\<in>set cs. feasible this d \<longrightarrow> no_better this d c))"

text \<open>The variables of the loop after candidate \<open>c\<close> was taken.\<close>

definition taken :: "CameraGrid \<Rightarrow> number \<times> number \<Rightarrow> grid_loop" where
  "taken this c =
     \<lparr>minCells = numCells c, maxScale = scale this c,
      chosenWidth = Some (fst c), chosenHeight = Some (snd c),
      chosenConstraint = Some (constraint_of this c)\<rparr>"

text \<open>
  A candidate of whole columns and rows whose cell count and scale are finite numbers, the
  scale positive.
\<close>

definition measured :: "CameraGrid \<Rightarrow> number \<times> number \<Rightarrow> bool" where
  "measured this c =
     (\<exists>k s. numCells c = Finite k \<and> scale this c = Finite s \<and> 0 < s)"

text \<open>What the solve reads of a state.\<close>

definition geometry :: "CameraGrid \<Rightarrow> real \<times> real \<times> real \<times> real \<times> int" where
  "geometry this =
     (offsetWidth this, offsetHeight this, tileScaleWidth' this, tileScaleHeight' this,
      numTiles this)"

text \<open>A number between two bounds.\<close>

definition between :: "real \<Rightarrow> real \<Rightarrow> number \<Rightarrow> bool" where
  "between lo hi v = (\<exists>r. v = Finite r \<and> lo \<le> r \<and> r \<le> hi)"

section \<open>Vocabulary of the controller\<close>

text \<open>
  What the constructor fixes: the feeds, the catalog, the number of cells and the tile
  scale.
\<close>

definition fixture ::
  "CameraGrid \<Rightarrow> string list \<times> (real \<times> real) list \<times> nat \<times> real \<times> real" where
  "fixture this =
     (sourceUrls' this, resolutions' this, length (cells' this),
      tileScaleWidth' this, tileScaleHeight' this)"

text \<open>The invariant of the view state: the selected index, if present, is that of a tile.\<close>

definition selection_valid :: "CameraGrid \<Rightarrow> bool" where
  "selection_valid this =
     (case selected' this of None \<Rightarrow> True | Some i \<Rightarrow> 0 \<le> i \<and> i < numTiles this)"

text \<open>
  A controller as the constructor builds it: one cell for each feed, at least one feed, a
  catalog with an entry.
\<close>

definition well_formed :: "CameraGrid \<Rightarrow> bool" where
  "well_formed this =
     (length (cells' this) = length (sourceUrls' this) \<and> 1 \<le> numTiles this
      \<and> resolutions' this \<noteq> [])"

text \<open>
  A step returns normally, with the given selection and scanning flag, and leaves what the
  constructor fixed.
\<close>

definition moves_to :: "CameraGrid \<Rightarrow> int option \<Rightarrow> bool \<Rightarrow> js_error + CameraGrid \<Rightarrow> bool" where
  "moves_to this sel scan result =
     (\<exists>this'. result = Inr this' \<and> selected' this' = sel \<and> scanning' this' = scan
        \<and> fixture this' = fixture this)"

text \<open>The selection after \<^verbatim>\<open>setSelected_\<close>: the index, or nothing when it was the selected one.\<close>

definition toggled :: "int option \<Rightarrow> int \<Rightarrow> int option" where
  "toggled sel index = (if sel = Some index then None else Some index)"

text \<open>
  The events that the constructor registers a listener for, and the listener each one runs.
  The character code of a key press is an unsigned number. A click carries the index bound
  to the image container clicked, which lies in a cell. A resize leaves the container with
  a positive width and a positive height.
\<close>

datatype event = KeyPress int | KeyDown int | Click int | ScanTimer | Resize real real

fun fire :: "event \<Rightarrow> CameraGrid \<Rightarrow> js_error + CameraGrid" where
  "fire (KeyPress charCode) this = onKeyPress' charCode this"
| "fire (KeyDown keyCode) this = onKeyDown' keyCode this"
| "fire (Click index) this = onClick' index this"
| "fire ScanTimer this = onScanTimer' this"
| "fire (Resize w h) this = onResize' w h this"

fun deliverable :: "CameraGrid \<Rightarrow> event \<Rightarrow> bool" where
  "deliverable this (KeyPress charCode) = (0 \<le> charCode)"
| "deliverable this (Click index) = (0 \<le> index \<and> index < int (length (cells' this)))"
| "deliverable this (Resize w h) = (pixels w \<and> pixels h)"
| "deliverable this e = True"

text \<open>An index that may be absent lies within the cells.\<close>

definition in_cells :: "CameraGrid \<Rightarrow> int option \<Rightarrow> bool" where
  "in_cells this v = (case v of None \<Rightarrow> True | Some i \<Rightarrow> 0 \<le> i \<and> i < int (length (cells' this)))"

section \<open>Vocabulary of the recompute pass\<close>

text \<open>The commands that a step adds to the log.\<close>

definition effects :: "CameraGrid \<Rightarrow> CameraGrid \<Rightarrow> dom_op list" where
  "effects this this' = drop (length (dom_log this)) (dom_log this')"

fun is_request :: "dom_op \<Rightarrow> bool" where
  "is_request (RequestImage i u) = True"
| "is_request op = False"

fun is_style :: "rule \<Rightarrow> dom_op \<Rightarrow> bool" where
  "is_style r (SetUpscaleRule r' c) = (r' = r)"
| "is_style r op = False"

fun is_grid :: "dom_op \<Rightarrow> bool" where
  "is_grid (BuildGrid w h) = True"
| "is_grid op = False"

text \<open>
  The five comparisons of a recomputed value with the cached one. A catalog without an
  entry gives no resolution to compare.
\<close>

definition constraint_changed :: "CameraGrid \<Rightarrow> bool" where
  "constraint_changed this = (constraint (calculateGrid' this) \<noteq> constraint' this)"

definition containerConstraint_changed :: "CameraGrid \<Rightarrow> bool" where
  "containerConstraint_changed this =
     (Some (containerConstraint (calculateGrid' this)) \<noteq> containerConstraint' this)"

definition resolution_changed :: "CameraGrid \<Rightarrow> bool" where
  "resolution_changed this =
     (case findMinimumResolution_num this (cellWidthPx (calculateGrid' this))
             (cellHeightPx (calculateGrid' this)) of
        None \<Rightarrow> True
      | Some r \<Rightarrow> Some (imgWidthPx r) \<noteq> imgWidthPx' this
                 \<or> Some (imgHeightPx r) \<noteq> imgHeightPx' this)"

definition containerResolution_changed :: "CameraGrid \<Rightarrow> bool" where
  "containerResolution_changed this =
     (case findMinimumResolution_num this (Finite (offsetWidth this))
             (Finite (offsetHeight this)) of
        None \<Rightarrow> True
      | Some r \<Rightarrow> Some (imgWidthPx r) \<noteq> containerImgWidthPx' this
                 \<or> Some (imgHeightPx r) \<noteq> containerImgHeightPx' this)"

definition shape_changed :: "CameraGrid \<Rightarrow> bool" where
  "shape_changed this =
     (js_ne (gridWidthCells (calculateGrid' this)) (gridWidthCells' this)
      \<or> js_ne (gridHeightCells (calculateGrid' this)) (gridHeightCells' this))"

text \<open>
  The URL of the image that a cell displays last, if it has one, and the request that
  \<^verbatim>\<open>buildImage_\<close> sends for a tile: none when the cell displays the tile's URL.
\<close>

definition displayed :: "CameraGrid \<Rightarrow> int \<Rightarrow> string option" where
  "displayed this index =
     (case js_index (cells' this) index of
        None \<Rightarrow> None
      | Some cell \<Rightarrow> if imgs cell = [] then None else Some (last (imgs cell)))"

definition refresh :: "int \<Rightarrow> CameraGrid \<Rightarrow> dom_op list" where
  "refresh index this =
     (if displayed this index = Some (imgUrl index this) then []
      else [RequestImage index (imgUrl index this)])"

text \<open>The state with a recomputed grid-cell resolution, and with a full-screen one.\<close>

definition with_resolution :: "resolution \<Rightarrow> CameraGrid \<Rightarrow> CameraGrid" where
  "with_resolution r this =
     this\<lparr>imgWidthPx' := Some (imgWidthPx r), imgHeightPx' := Some (imgHeightPx r)\<rparr>"

definition with_containerResolution :: "resolution \<Rightarrow> CameraGrid \<Rightarrow> CameraGrid" where
  "with_containerResolution r this =
     this\<lparr>containerImgWidthPx' := Some (imgWidthPx r),
          containerImgHeightPx' := Some (imgHeightPx r)\<rparr>"

text \<open>A step that only adds image containers to the cells and requests to the log.\<close>

definition requests_only :: "CameraGrid \<Rightarrow> CameraGrid \<Rightarrow> dom_op list \<Rightarrow> bool" where
  "requests_only this this' ops =
     (\<exists>cs. this' = this\<lparr>cells' := cs, dom_log := dom_log this @ ops\<rparr>
        \<and> length cs = length (cells' this) \<and> list_all is_request ops)"

section \<open>Worked scenarios\<close>

text \<open>
  Four feeds in a container of 700 by 500 pixels, with the default catalog. The URL builder
  follows the default template, writing out the dimensions of the default catalog.
\<close>

definition demo_urls :: "string list" where
  "demo_urls = [''cam0/'', ''cam1/'', ''cam2/'', ''cam3/'']"

definition demo_px :: "real option \<Rightarrow> string" where
  "demo_px v =
     (if v = Some 240 then ''240'' else if v = Some 320 then ''320''
      else if v = Some 360 then ''360'' else if v = Some 480 then ''480''
      else if v = Some 600 then ''600'' else if v = Some 640 then ''640''
      else if v = Some 768 then ''768'' else if v = Some 800 then ''800''
      else if v = Some 1024 then ''1024'' else ''other'')"

definition demo_getUrl :: "string option \<Rightarrow> real option \<Rightarrow> real option \<Rightarrow> string" where
  "demo_getUrl sourceUrl width height =
     (case sourceUrl of None \<Rightarrow> ''undefined'' | Some u \<Rightarrow> u)
       @ ''mjpg/video.mjpg?resolution='' @ demo_px width @ ''x'' @ demo_px height"

definition demo_cell :: "string \<Rightarrow> cell" where
  "demo_cell u = \<lparr>className = [], imgs = [u @ ''mjpg/video.mjpg?resolution=480x360'']\<rparr>"

text \<open>The state that the constructor leaves (lemma \<open>new_CameraGrid_demo\<close> below).\<close>

definition demo :: CameraGrid where
  "demo =
     \<lparr>offsetWidth = 700, offsetHeight = 500,
      sourceUrls' = demo_urls, resolutions' = defaultResolutions', getUrl' = demo_getUrl,
      tileScaleWidth' = 160, tileScaleHeight' = 120,
      gridWidthCells' = Some (Finite 2), gridHeightCells' = Some (Finite 2),
      imgWidthPx' = Some 480, imgHeightPx' = Some 360, constraint' = Some Height,
      containerImgWidthPx' = Some 800, ctonainerImgHeightPx' = Some 0,
      containerImgHeightPx' = Some 600, containerConstraint' = Some Height,
      selected' = None, scanning' = False,
      cells' = map demo_cell demo_urls,
      dom_log =
        [SetUpscaleRule ImageScaleRule (Some Height),
         SetUpscaleRule ContainerImageScaleRule (Some Height),
         RequestImage 0 ''cam0/mjpg/video.mjpg?resolution=480x360'',
         RequestImage 1 ''cam1/mjpg/video.mjpg?resolution=480x360'',
         RequestImage 2 ''cam2/mjpg/video.mjpg?resolution=480x360'',
         RequestImage 3 ''cam3/mjpg/video.mjpg?resolution=480x360'',
         BuildGrid (Some (Finite 2)) (Some (Finite 2))]\<rparr>"

text \<open>
  Two feeds in a container of 640 by 480 pixels, with the default catalog: the state that
  the constructor leaves.
\<close>

definition pair_cell :: "string \<Rightarrow> cell" where
  "pair_cell u = \<lparr>className = [], imgs = [u @ ''mjpg/video.mjpg?resolution=320x240'']\<rparr>"

definition pair_demo :: CameraGrid where
  "pair_demo =
     \<lparr>offsetWidth = 640, offsetHeight = 480,
      sourceUrls' = [''cam0/'', ''cam1/''], resolutions' = defaultResolutions',
      getUrl' = demo_getUrl,
      tileScaleWidth' = 160, tileScaleHeight' = 120,
      gridWidthCells' = Some (Finite 1), gridHeightCells' = Some (Finite 2),
      imgWidthPx' = Some 320, imgHeightPx' = Some 240, constraint' = Some Height,
      containerImgWidthPx' = Some 640, ctonainerImgHeightPx' = Some 0,
      containerImgHeightPx' = Some 480, containerConstraint' = Some Height,
      selected' = None, scanning' = False,
      cells' = map pair_cell [''cam0/'', ''cam1/''],
      dom_log =
        [SetUpscaleRule ImageScaleRule (Some Height),
         SetUpscaleRule ContainerImageScaleRule (Some Height),
         RequestImage 0 ''cam0/mjpg/video.mjpg?resolution=320x240'',
         RequestImage 1 ''cam1/mjpg/video.mjpg?resolution=320x240'',
         BuildGrid (Some (Finite 1)) (Some (Finite 2))]\<rparr>"

text \<open>
  One feed in a container of 640 by 480 pixels, with the default catalog, after the key
  \<^verbatim>\<open>s\<close> started the scan: the only tile is selected.
\<close>

definition solo_demo :: CameraGrid where
  "solo_demo =
     \<lparr>offsetWidth = 640, offsetHeight = 480,
      sourceUrls' = [''cam0/''], resolutions' = defaultResolutions', getUrl' = demo_getUrl,
      tileScaleWidth' = 160, tileScaleHeight' = 120,
      gridWidthCells' = Some (Finite 1), gridHeightCells' = Some (Finite 1),
      imgWidthPx' = Some 640, imgHeightPx' = Some 480, constraint' = Some Height,
      containerImgWidthPx' = Some 640, ctonainerImgHeightPx' = Some 0,
      containerImgHeightPx' = Some 480, containerConstraint' = Some Height,
      selected' = Some 0, scanning' = True,
      cells' = [\<lparr>className = [''cameraGridFullScreen''],
                 imgs = [''cam0/mjpg/video.mjpg?resolution=640x480'']\<rparr>],
      dom_log =
        [SetUpscaleRule ImageScaleRule (Some Height),
         SetUpscaleRule ContainerImageScaleRule (Some Height),
         RequestImage 0 ''cam0/mjpg/video.mjpg?resolution=640x480'',
         BuildGrid (Some (Finite 1)) (Some (Finite 1))]\<rparr>"

section \<open>The resolution catalog: what the scan returns\<close>

text \<open>
  Both loops, started at any index, return the first entry from there on that reaches the
  target, and the last entry of the catalog when none does.
\<close>

lemma fmr_loop_first:
  "i < length rs \<Longrightarrow>
   findMinimumResolution_loop rs w h i =
     Some (as_resolution (case find (reaches w h) (drop i rs) of Some r \<Rightarrow> r | None \<Rightarrow> last rs))"
proof (induction rs w h i rule: findMinimumResolution_loop.induct)
  case (1 rs w h i)
  have d: "drop i rs = rs ! i # drop (Suc i) rs"
    using "1.prems" by (simp add: Cons_nth_drop_Suc)
  show ?case
  proof (cases "i + 1 < length rs \<and> (fst (rs ! i) < w \<and> snd (rs ! i) < h)")
    case True
    then have "findMinimumResolution_loop rs w h i = findMinimumResolution_loop rs w h (i + 1)"
      using "1.prems" by (subst findMinimumResolution_loop.simps) (simp add: Let_def)
    also have "\<dots> = Some (as_resolution (case find (reaches w h) (drop (i + 1) rs) of Some r \<Rightarrow> r | None \<Rightarrow> last rs))"
      using "1.IH"[OF "1.prems" refl True] True by simp
    finally show ?thesis using True by (simp add: d reaches_def[of w h "rs ! i"] not_le)
  next
    case False
    then have r: "findMinimumResolution_loop rs w h i = Some (as_resolution (rs ! i))"
      using "1.prems" by (subst findMinimumResolution_loop.simps) (auto simp: Let_def as_resolution_def)
    show ?thesis
    proof (cases "reaches w h (rs ! i)")
      case True
      then show ?thesis by (simp add: r d)
    next
      case nr: False
      with False have "\<not> i + 1 < length rs" by (auto simp: reaches_def[of w h "rs ! i"])
      with "1.prems" have e: "i = length rs - 1" "rs \<noteq> []" by auto
      have "drop (Suc i) rs = []" using e by simp
      moreover have "last rs = rs ! i" using e last_conv_nth[of rs] by simp
      ultimately have "drop (Suc i) rs = []" "last rs = rs ! i" by blast+
      then show ?thesis using nr by (simp add: r d)
    qed
  qed
qed

lemma fmr2_loop_first:
  "rs \<noteq> [] \<Longrightarrow> i \<le> length rs \<Longrightarrow>
   findMinimumResolution2_loop rs w h i =
     Inr (if find (reaches w h) (drop i rs) = None then [upscale_message] else [],
          as_resolution (case find (reaches w h) (drop i rs) of Some r \<Rightarrow> r | None \<Rightarrow> last rs))"
proof (induction rs w h i rule: findMinimumResolution2_loop.induct)
  case (1 rs w h i)
  show ?case
  proof (cases "i < length rs")
    case lt: True
    have d: "drop i rs = rs ! i # drop (Suc i) rs"
      using lt by (simp add: Cons_nth_drop_Suc)
    show ?thesis
    proof (cases "fst (rs ! i) < w \<and> snd (rs ! i) < h")
      case True
      then have "findMinimumResolution2_loop rs w h i = findMinimumResolution2_loop rs w h (i + 1)"
        using lt by (subst findMinimumResolution2_loop.simps) (simp add: Let_def)
      then show ?thesis
        using "1.IH"[OF lt refl True "1.prems"(1)] lt True by (simp add: d reaches_def[of w h "rs ! i"] not_le)
    next
      case False
      then show ?thesis
        using lt by (subst findMinimumResolution2_loop.simps) (auto simp: Let_def as_resolution_def d reaches_def[of w h "rs ! i"])
    qed
  next
    case False
    with "1.prems" have "i = length rs" by simp
    then show ?thesis
      using "1.prems"(1)
      by (subst findMinimumResolution2_loop.simps)
         (simp add: js_index_def as_resolution_def last_conv_nth nat_diff_distrib')
  qed
qed

lemma ascending_last_largest:
  "ascending rs \<Longrightarrow> r \<in> set rs \<Longrightarrow> fst r \<le> fst (last rs) \<and> snd r \<le> snd (last rs)"
proof (induction rs)
  case Nil
  then show ?case by simp
next
  case (Cons a rs)
  show ?case
  proof (cases "rs = []")
    case True
    with Cons.prems show ?thesis by simp
  next
    case False
    then have l: "last rs \<in> set rs" by simp
    from Cons.prems(1) have asc: "ascending rs" and lt: "\<forall>b\<in>set rs. fst a < fst b \<and> snd a < snd b"
      by (simp_all add: ascending_def)
    show ?thesis
    proof (cases "r = a")
      case True
      with lt l False show ?thesis by (simp add: less_imp_le)
    next
      case False
      with Cons.prems(2) have "r \<in> set rs" by simp
      with Cons.IH asc \<open>rs \<noteq> []\<close> show ?thesis by simp
    qed
  qed
qed

lemma ascending_hd_smallest:
  "ascending rs \<Longrightarrow> r \<in> set rs \<Longrightarrow> fst (hd rs) \<le> fst r \<and> snd (hd rs) \<le> snd r"
  by (cases rs) (auto simp: ascending_def less_imp_le)

lemma reaches_origin:
  "catalog_ok rs \<Longrightarrow> firstReaching rs 0 0 = hd rs"
  by (cases rs) (auto simp: catalog_ok_def firstReaching_def reaches_def)

lemma proportional_covering:
  assumes "\<forall>r\<in>set rs. fst r < w \<longleftrightarrow> snd r < h"
  shows "firstReaching rs w h = smallestCovering rs w h"
proof -
  have "find (reaches w h) rs = find (covers w h) rs"
    using assms by (intro find_cong) (auto simp: reaches_def covers_def not_less[symmetric])
  then show ?thesis by (simp add: firstReaching_def smallestCovering_def)
qed

lemma findMinimumResolution_first:
  "resolutions' this \<noteq> [] \<Longrightarrow>
   findMinimumResolution' this w h = Some (as_resolution (firstReaching (resolutions' this) w h))"
  using fmr_loop_first[of 0 "resolutions' this" w h]
  by (simp add: findMinimumResolution'_def firstReaching_def)

lemma findMinimumResolution2_first:
  "resolutions' this \<noteq> [] \<Longrightarrow>
   findMinimumResolution2' this w h =
     Inr (if find (reaches w h) (resolutions' this) = None then [upscale_message] else [],
          as_resolution (firstReaching (resolutions' this) w h))"
  using fmr2_loop_first[of "resolutions' this" 0 w h]
  by (simp add: findMinimumResolution2'_def firstReaching_def)

lemma catalog_ok_default: "catalog_ok defaultResolutions'"
  by (simp add: catalog_ok_def defaultResolutions'_def ascending_def)

text \<open>
  C3, as stated: the function returns the first entry that covers the target, that is
  whose width and height are both at least the target's. For the default catalog and the
  target 700 by 100 the first covering entry is 800 by 600, and both revisions return
  160 by 120, whose height alone reaches the target: the loop skips an entry only when it
  is smaller in both dimensions.
\<close>

theorem findMinimumResolution_smallestCovering_counterexample:
  "catalog_ok (resolutions' demo)
   \<and> smallestCovering (resolutions' demo) 700 100 = (800, 600)
   \<and> findMinimumResolution' demo 700 100 = Some \<lparr>imgWidthPx = 160, imgHeightPx = 120\<rparr>
   \<and> findMinimumResolution2' demo 700 100 = Inr ([], \<lparr>imgWidthPx = 160, imgHeightPx = 120\<rparr>)"
proof -
  have rs: "resolutions' demo = defaultResolutions'" by (simp add: demo_def)
  have ne: "resolutions' demo \<noteq> []" by (simp add: rs defaultResolutions'_def)
  have f: "firstReaching defaultResolutions' 700 100 = (160, 120)"
    by (simp add: firstReaching_def defaultResolutions'_def reaches_def)
  have g: "find (reaches 700 100) defaultResolutions' \<noteq> None"
    by (simp add: defaultResolutions'_def reaches_def)
  have c: "smallestCovering defaultResolutions' 700 100 = (800, 600)"
    by (simp add: smallestCovering_def defaultResolutions'_def covers_def)
  show ?thesis
    using findMinimumResolution_first[OF ne, of 700 100]
      findMinimumResolution2_first[OF ne, of 700 100] g
    by (simp add: rs f c catalog_ok_default as_resolution_def)
qed

text \<open>
  C3, amended: for a non-empty ascending catalog of positive resolutions and every target,
  both revisions of \<^verbatim>\<open>findMinimumResolution_\<close> return the first entry whose width or
  whose height is at least the target's; when no entry is, they return the last entry,
  which is the largest. The entry returned is the first covering one whenever every entry
  is below the target in both dimensions or in neither, as it is for a target in the
  aspect ratio of the catalog. The target (0, 0) yields the first entry, the smallest.
\<close>

theorem findMinimumResolution_firstReaching:
  assumes "catalog_ok (resolutions' this)"
  shows "findMinimumResolution' this w h
           = Some (as_resolution (firstReaching (resolutions' this) w h))
       \<and> findMinimumResolution2' this w h
           = Inr (if find (reaches w h) (resolutions' this) = None then [upscale_message] else [],
                  as_resolution (firstReaching (resolutions' this) w h))
       \<and> (find (reaches w h) (resolutions' this) = None \<longrightarrow>
            firstReaching (resolutions' this) w h = last (resolutions' this)
            \<and> (\<forall>r\<in>set (resolutions' this).
                  fst r \<le> fst (last (resolutions' this)) \<and> snd r \<le> snd (last (resolutions' this))))
       \<and> ((\<forall>r\<in>set (resolutions' this). fst r < w \<longleftrightarrow> snd r < h) \<longrightarrow>
            firstReaching (resolutions' this) w h = smallestCovering (resolutions' this) w h)
       \<and> firstReaching (resolutions' this) 0 0 = hd (resolutions' this)
       \<and> (\<forall>r\<in>set (resolutions' this).
             fst (hd (resolutions' this)) \<le> fst r \<and> snd (hd (resolutions' this)) \<le> snd r)"
proof -
  from assms have ne: "resolutions' this \<noteq> []" and asc: "ascending (resolutions' this)"
    by (simp_all add: catalog_ok_def)
  show ?thesis
    using findMinimumResolution_first[OF ne] findMinimumResolution2_first[OF ne]
      ascending_last_largest[OF asc] ascending_hd_smallest[OF asc]
      proportional_covering[of "resolutions' this" w h] reaches_origin[OF assms]
    by (simp add: firstReaching_def)
qed

theorem findMinimumResolution_firstReaching_witness:
  "catalog_ok (resolutions' demo)
   \<and> findMinimumResolution' demo 700 100 = Some \<lparr>imgWidthPx = 160, imgHeightPx = 120\<rparr>
   \<and> findMinimumResolution2' demo 700 100 = Inr ([], \<lparr>imgWidthPx = 160, imgHeightPx = 120\<rparr>)
   \<and> firstReaching (resolutions' demo) 0 0 = (160, 120)"
proof -
  have rs: "resolutions' demo = defaultResolutions'" by (simp add: demo_def)
  have f: "firstReaching defaultResolutions' 700 100 = (160, 120)"
    by (simp add: firstReaching_def defaultResolutions'_def reaches_def)
  have g: "find (reaches 700 100) defaultResolutions' \<noteq> None"
    by (simp add: defaultResolutions'_def reaches_def)
  have h: "hd defaultResolutions' = (160, 120)" by (simp add: defaultResolutions'_def)
  have ok: "catalog_ok (resolutions' demo)" by (simp add: rs catalog_ok_default)
  show ?thesis
    using findMinimumResolution_firstReaching[OF ok, of 700 100] g ok
    by (simp add: rs f h as_resolution_def)
qed

text \<open>
  C10: on a non-empty catalog the two revisions of \<^verbatim>\<open>findMinimumResolution_\<close> return
  the same width and height for every target. The first revision never logs; the second
  logs its message exactly when no entry reaches the target.
\<close>

theorem findMinimumResolution_revisions_agree:
  assumes "resolutions' this \<noteq> []"
  shows "\<exists>r. findMinimumResolution' this w h = Some r
           \<and> findMinimumResolution2' this w h
               = Inr (if find (reaches w h) (resolutions' this) = None
                      then [upscale_message] else [], r)"
  using findMinimumResolution_first[OF assms] findMinimumResolution2_first[OF assms] by simp

theorem findMinimumResolution_revisions_agree_witness:
  "resolutions' demo \<noteq> []
   \<and> (\<exists>r. findMinimumResolution' demo 2000 1500 = Some r
          \<and> findMinimumResolution2' demo 2000 1500 = Inr ([upscale_message], r))"
proof -
  have rs: "resolutions' demo = defaultResolutions'" by (simp add: demo_def)
  have ne: "resolutions' demo \<noteq> []" by (simp add: rs defaultResolutions'_def)
  have g: "find (reaches 2000 1500) defaultResolutions' = None"
    by (simp add: defaultResolutions'_def reaches_def)
  show ?thesis
    using findMinimumResolution_revisions_agree[OF ne, of 2000 1500] ne g
    by (simp add: rs)
qed


subsection \<open>Targets that are numbers\<close>

lemma findMinimumResolution_num_loop_Finite:
  "findMinimumResolution_num_loop rs (Finite w) (Finite h) i = findMinimumResolution_loop rs w h i"
proof (induction rs w h i rule: findMinimumResolution_loop.induct)
  case (1 rs w h i)
  show ?case
    using 1
    by (subst findMinimumResolution_num_loop.simps, subst findMinimumResolution_loop.simps)
      (auto simp: Let_def)
qed

lemma findMinimumResolution_num_Finite:
  "findMinimumResolution_num this (Finite w) (Finite h) = findMinimumResolution' this w h"
  by (simp add: findMinimumResolution_num_def findMinimumResolution'_def
      findMinimumResolution_num_loop_Finite)

text \<open>For any target the scan returns an entry of a catalog that has one.\<close>

lemma findMinimumResolution_num_loop_Some:
  "i < length rs \<Longrightarrow> \<exists>r. findMinimumResolution_num_loop rs w h i = Some r"
proof (induction rs w h i rule: findMinimumResolution_num_loop.induct)
  case (1 rs w h i)
  show ?case
    using 1 by (subst findMinimumResolution_num_loop.simps) (auto simp: Let_def)
qed

lemma findMinimumResolution_num_Some:
  "resolutions' this \<noteq> [] \<Longrightarrow> \<exists>r. findMinimumResolution_num this w h = Some r"
  by (simp add: findMinimumResolution_num_def findMinimumResolution_num_loop_Some)


section \<open>Numbers: what the rounding guarantees\<close>

subsection \<open>The nearest binary64 value\<close>

lemma roundTiesToEven_of_int: "roundTiesToEven (of_int k) = k"
  by (simp add: roundTiesToEven_def)

lemma roundTiesToEven_near: "\<bar>of_int (roundTiesToEven y) - y\<bar> \<le> 1 / 2"
  unfolding roundTiesToEven_def by (auto simp: abs_le_iff)

lemma floor_log2_bounds:
  assumes "0 < x"
  shows "2 powr of_int \<lfloor>log 2 x\<rfloor> \<le> x" and "x < 2 powr (of_int \<lfloor>log 2 x\<rfloor> + 1)"
proof -
  have "of_int \<lfloor>log 2 x\<rfloor> \<le> log 2 x" by simp
  then show "2 powr of_int \<lfloor>log 2 x\<rfloor> \<le> x"
    using assms by (simp add: powr_le_iff)
  have "log 2 x < of_int \<lfloor>log 2 x\<rfloor> + 1" by linarith
  then show "x < 2 powr (of_int \<lfloor>log 2 x\<rfloor> + 1)"
    using assms by (simp add: less_powr_iff)
qed

lemma floor_log2_eq:
  assumes "2 powr of_int k \<le> x" and "x < 2 powr (of_int k + 1)"
  shows "\<lfloor>log 2 x\<rfloor> = k"
proof -
  have pos: "0 < x" using assms(1) by (smt (verit) powr_gt_zero)
  have "of_int k \<le> log 2 x" using assms(1) pos by (simp add: powr_le_iff)
  moreover have "log 2 x < of_int k + 1" using assms(2) pos by (simp add: less_powr_iff)
  ultimately show ?thesis by (simp add: floor_unique)
qed

lemma below_MAX_VALUE: "x \<le> 2 powr 1023 + 2 powr 970 \<Longrightarrow> x \<le> Number_MAX_VALUE"
proof -
  have "(2::real) powr 1023 + 2 powr 970 \<le> Number_MAX_VALUE"
    unfolding Number_MAX_VALUE_def by simp
  then show "x \<le> 2 powr 1023 + 2 powr 970 \<Longrightarrow> x \<le> Number_MAX_VALUE" by linarith
qed

lemma abs_scaled: "0 < u \<Longrightarrow> \<bar>m * u - x\<bar> = \<bar>m - x / u\<bar> * (u::real)"
proof -
  assume u: "0 < u"
  then have "m * u - x = (m - x / u) * u" by (simp add: field_simps)
  then show ?thesis using u by (simp add: abs_mult)
qed

lemma ulp_exponent_normal:
  assumes "2 powr of_int k \<le> \<bar>x\<bar>" and "\<bar>x\<bar> < 2 powr (of_int k + 1)" and "- 1022 \<le> k"
  shows "ulp_exponent x = k - 52"
  using floor_log2_eq[OF assms(1,2)] assms(3) by (simp add: ulp_exponent_def)

lemma rounded_near:
  assumes "0 < u"
  shows "\<bar>of_int (roundTiesToEven (x / u)) * u - x\<bar> \<le> u / 2"
proof -
  have "\<bar>of_int (roundTiesToEven (x / u)) * u - x\<bar> = \<bar>of_int (roundTiesToEven (x / u)) - x / u\<bar> * u"
    by (rule abs_scaled[OF assms])
  also have "\<dots> \<le> 1 / 2 * u"
    using roundTiesToEven_near[of "x / u"] assms by (intro mult_right_mono) auto
  finally show ?thesis by simp
qed

text \<open>
  A positive number in the range of the normal numbers, whose leading binary digit has
  exponent \<open>k\<close>, is rounded to a multiple of \<open>2\<^sup>k\<^sup>-\<^sup>5\<^sup>2\<close>.
\<close>

lemma binary64_eval:
  assumes lo: "2 powr of_int k \<le> x" and hi: "x < 2 powr (of_int k + 1)"
    and k: "- 1022 \<le> k" "k \<le> 1022"
  shows "binary64 x =
           Finite (of_int (roundTiesToEven (x / 2 powr of_int (k - 52))) * 2 powr of_int (k - 52))"
proof -
  have pos: "0 < x" using lo by (smt (verit) powr_gt_zero)
  have E: "ulp_exponent x = k - 52"
    using ulp_exponent_normal[of k x] lo hi k pos by simp
  let ?u = "2 powr of_int (k - 52) :: real"
  let ?m = "roundTiesToEven (x / ?u)"
  have upos: "0 < ?u" by simp
  have d: "\<bar>of_int ?m * ?u - x\<bar> \<le> ?u / 2" by (rule rounded_near[OF upos])
  have "?u \<le> 2 powr 971" using k by (intro powr_mono) auto
  then have u: "?u / 2 \<le> 2 powr 970"
  proof -
    have "(2::real) powr 971 = 2 powr 970 * 2 powr 1" by (simp only: powr_add[symmetric]) simp
    then show ?thesis using \<open>?u \<le> 2 powr 971\<close> by simp
  qed
  have "2 powr (of_int k + 1) \<le> (2::real) powr 1023" using k by (intro powr_mono) auto
  then have x1023: "x < 2 powr 1023" using hi by linarith
  have "\<bar>of_int ?m * ?u\<bar> \<le> x + ?u / 2" using d pos by linarith
  also have "\<dots> \<le> 2 powr 1023 + 2 powr 970" using x1023 u by linarith
  finally have "\<bar>of_int ?m * ?u\<bar> \<le> Number_MAX_VALUE" by (rule below_MAX_VALUE)
  then have "\<not> Number_MAX_VALUE < \<bar>of_int ?m * ?u\<bar>" by simp
  then show ?thesis
    using pos unfolding binary64_def Let_def E by simp
qed

text \<open>In that range the relative error of the rounding is at most \<open>2\<^sup>-\<^sup>5\<^sup>3\<close>.\<close>

lemma binary64_near:
  assumes lo: "2 powr (- 1022) \<le> x" and hi: "x < 2 powr 1023"
  shows "\<exists>r. binary64 x = Finite r \<and> \<bar>r - x\<bar> \<le> x / 2 ^ 53"
proof -
  have pos: "0 < x" using lo by (smt (verit) powr_gt_zero)
  define k where "k = \<lfloor>log 2 x\<rfloor>"
  have b: "2 powr of_int k \<le> x" "x < 2 powr (of_int k + 1)"
    using floor_log2_bounds[OF pos] by (simp_all add: k_def)
  have "- 1022 \<le> log 2 x" using lo pos by (simp add: powr_le_iff)
  then have k1: "- 1022 \<le> k" unfolding k_def by (simp add: le_floor_iff)
  have "(x < 2 powr 1023) = (log 2 x < 1023)" by (rule less_powr_iff) (use pos in simp_all)
  then have "log 2 x < 1023" using hi by blast
  then have k2: "k \<le> 1022" unfolding k_def by (simp add: floor_less_iff)
  let ?u = "2 powr of_int (k - 52) :: real"
  let ?m = "roundTiesToEven (x / ?u)"
  have ev: "binary64 x = Finite (of_int ?m * ?u)" by (rule binary64_eval[OF b k1 k2])
  have upos: "0 < ?u" by simp
  have "\<bar>of_int ?m * ?u - x\<bar> \<le> ?u / 2" by (rule rounded_near[OF upos])
  also have "\<dots> = 2 powr of_int k / 2 ^ 53"
  proof -
    have "(2::real) powr of_int (k - 52) = 2 powr of_int k * 2 powr (- 52)"
      by (simp add: powr_add[symmetric])
    moreover have "(2::real) powr (- 52) = 1 / 2 ^ 52" by (simp add: powr_minus divide_simps)
    ultimately show ?thesis by simp
  qed
  also have "\<dots> \<le> x / 2 ^ 53" using b(1) by (simp add: divide_right_mono)
  finally show ?thesis using ev by blast
qed

text \<open>A binary64 value is rounded to itself.\<close>

lemma binary64_exact:
  assumes x: "x = of_int m * 2 powr of_int e" and m: "\<bar>m\<bar> < 2 ^ 53"
    and e: "- 1074 \<le> e" and fin: "\<bar>x\<bar> \<le> Number_MAX_VALUE"
  shows "binary64 x = Finite x"
proof (cases "m = 0")
  case True
  then show ?thesis using x by (simp add: binary64_def)
next
  case False
  have xnz: "x \<noteq> 0" using False x by simp
  have absx: "\<bar>x\<bar> = of_int \<bar>m\<bar> * 2 powr of_int e" using x by (simp add: abs_mult)
  have "of_int \<bar>m\<bar> < (2::real) ^ 53" using m by (metis of_int_less_numeral_power_cancel_iff)
  then have "\<bar>x\<bar> < 2 ^ 53 * 2 powr of_int e" unfolding absx by simp
  also have "\<dots> = 2 powr (53 + of_int e)" by (simp add: powr_add)
  finally have "log 2 \<bar>x\<bar> < 53 + of_int e" using xnz by (simp add: less_powr_iff)
  then have "\<lfloor>log 2 \<bar>x\<bar>\<rfloor> < 53 + e" by (simp add: floor_less_iff)
  then have E: "ulp_exponent x \<le> e" using e by (simp add: ulp_exponent_def)
  define d where "d = nat (e - ulp_exponent x)"
  define u where "u = (2::real) powr of_int (ulp_exponent x)"
  have upos: "0 < u" by (simp add: u_def)
  have "real d = of_int e - of_int (ulp_exponent x)" using E by (simp add: d_def)
  then have "(2::real) powr of_int e / u = 2 powr (real d)"
    unfolding u_def by (simp only: powr_diff)
  moreover have "x / u = of_int m * (2 powr of_int e / u)" by (subst x) simp
  ultimately have "x / u = of_int m * 2 powr (real d)" by simp
  also have "\<dots> = of_int (m * 2 ^ d)" by (simp add: powr_realpow)
  finally have q: "x / u = of_int (m * 2 ^ d)" .
  have "roundTiesToEven (x / u) = m * 2 ^ d" by (simp only: q roundTiesToEven_of_int)
  then have "of_int (roundTiesToEven (x / u)) * u = x / u * u" by (simp only: q)
  also have "\<dots> = x" using upos by simp
  finally have r: "of_int (roundTiesToEven (x / u)) * u = x" .
  have "binary64 x =
          (if Number_MAX_VALUE < \<bar>of_int (roundTiesToEven (x / u)) * u\<bar>
           then (if 0 < x then PosInf else NegInf)
           else Finite (of_int (roundTiesToEven (x / u)) * u))"
    using xnz by (simp add: binary64_def Let_def u_def)
  also have "\<dots> = Finite x" unfolding r using fin by simp
  finally show ?thesis .
qed

lemma binary64_of_int:
  assumes "\<bar>k\<bar> \<le> 2 ^ 53"
  shows "binary64 (of_int k) = Finite (of_int k)"
proof -
  have fin: "\<bar>of_int k :: real\<bar> \<le> Number_MAX_VALUE"
  proof -
    have "\<bar>of_int k :: real\<bar> \<le> 2 ^ 53"
      using assms by (metis of_int_abs of_int_le_numeral_power_cancel_iff)
    also have "\<dots> \<le> 2 powr 1023 + 2 powr 970" by simp
    finally show ?thesis by (rule below_MAX_VALUE)
  qed
  show ?thesis
  proof (cases "\<bar>k\<bar> = 2 ^ 53")
    case True
    then have "k = 2 ^ 53 \<or> k = - (2 ^ 53)" by linarith
    then obtain j where j: "k = 2 * j" "\<bar>j\<bar> < 2 ^ 53" by auto
    have x: "(of_int k :: real) = of_int j * 2 powr of_int 1" using j by simp
    show ?thesis using binary64_exact[OF x j(2) _ fin] by simp
  next
    case False
    then have m: "\<bar>k\<bar> < 2 ^ 53" using assms by linarith
    have x: "(of_int k :: real) = of_int k * 2 powr of_int 0" by simp
    show ?thesis using binary64_exact[OF x m _ fin] by simp
  qed
qed

lemma binary64_numeral [simp]:
  "numeral n \<le> (2::int) ^ 53 \<Longrightarrow> binary64 (numeral n) = Finite (numeral n)"
  using binary64_of_int[of "numeral n"] by simp

lemma binary64_0 [simp]: "binary64 0 = Finite 0"
  by (simp add: binary64_def)

lemma binary64_1 [simp]: "binary64 1 = Finite 1"
  using binary64_of_int[of 1] by simp

subsection \<open>Bounds on a rounded result\<close>

lemma normal_range:
  fixes x :: real
  assumes "1 / 2 ^ 200 \<le> x" and "x \<le> 2 ^ 200"
  shows "2 powr (- 1022) \<le> x" and "x < 2 powr 1023"
proof -
  have "(2::real) powr (- 1022) \<le> 2 powr (- 200)" by (intro powr_mono) auto
  also have "\<dots> = 1 / 2 ^ 200" by (simp add: powr_minus divide_simps)
  finally show "2 powr (- 1022) \<le> x" using assms(1) by linarith
  have "(2::real) ^ 200 = 2 powr 200" by simp
  also have "\<dots> < 2 powr 1023" by (intro powr_less_mono) auto
  finally show "x < 2 powr 1023" using assms(2) by linarith
qed

lemma binary64_bounds:
  assumes "1 / 2 ^ 200 \<le> x" and "x \<le> 2 ^ 200"
  shows "\<exists>r. binary64 x = Finite r \<and> x * (1 - 1 / 2 ^ 53) \<le> r \<and> r \<le> x * (1 + 1 / 2 ^ 53)"
proof -
  from binary64_near[OF normal_range[OF assms]] obtain r
    where r: "binary64 x = Finite r" "\<bar>r - x\<bar> \<le> x / 2 ^ 53" by blast
  have e: "x * (1 - 1 / 2 ^ 53) = x - x / 2 ^ 53" "x * (1 + 1 / 2 ^ 53) = x + x / 2 ^ 53"
    by (simp_all add: algebra_simps)
  have "x - x / 2 ^ 53 \<le> r" "r \<le> x + x / 2 ^ 53" using r(2) by linarith+
  then have "x * (1 - 1 / 2 ^ 53) \<le> r \<and> r \<le> x * (1 + 1 / 2 ^ 53)" by (simp only: e)
  then show ?thesis using r(1) by blast
qed

lemma binary64_bounds_in:
  assumes "lo \<le> x" and "x \<le> hi" and "1 / 2 ^ 200 \<le> lo" and "hi \<le> 2 ^ 200"
  shows "\<exists>r. binary64 x = Finite r \<and> x * (1 - 1 / 2 ^ 53) \<le> r \<and> r \<le> x * (1 + 1 / 2 ^ 53)"
proof -
  have "1 / 2 ^ 200 \<le> x" "x \<le> 2 ^ 200" using assms by linarith+
  then show ?thesis by (rule binary64_bounds)
qed

lemma between_Finite: "lo \<le> x \<Longrightarrow> x \<le> hi \<Longrightarrow> between lo hi (Finite x)"
  by (simp add: between_def)

lemma between_binary64:
  assumes "l \<le> x" and "x \<le> h" and "1 / 2 ^ 200 \<le> l" and "h \<le> 2 ^ 200"
    and "lo \<le> l * (1 - 1 / 2 ^ 53)" and "h * (1 + 1 / 2 ^ 53) \<le> hi"
  shows "between lo hi (binary64 x)"
proof -
  have x: "1 / 2 ^ 200 \<le> x" "x \<le> 2 ^ 200" using assms by linarith+
  from binary64_bounds[OF x] obtain r
    where r: "binary64 x = Finite r" "x * (1 - 1 / 2 ^ 53) \<le> r" "r \<le> x * (1 + 1 / 2 ^ 53)"
    by blast
  have "l * (1 - 1 / 2 ^ 53) \<le> x * (1 - 1 / 2 ^ 53)"
    using assms(1) by (intro mult_right_mono) simp_all
  moreover have "x * (1 + 1 / 2 ^ 53) \<le> h * (1 + 1 / 2 ^ 53)"
    using assms(2) by (intro mult_right_mono) simp_all
  ultimately show ?thesis using r assms(5,6) by (simp add: between_def)
qed

lemma between_div:
  assumes a: "between la ha a" and b: "between lb hb b" and pos: "0 \<le> la" "0 < lb"
    and range: "1 / 2 ^ 200 \<le> la / hb" "ha / lb \<le> 2 ^ 200"
    and lo: "lo \<le> la / hb * (1 - 1 / 2 ^ 53)" and hi: "ha / lb * (1 + 1 / 2 ^ 53) \<le> hi"
  shows "between lo hi (num_div a b)"
proof -
  from a obtain x where x: "a = Finite x" "la \<le> x" "x \<le> ha" by (auto simp: between_def)
  from b obtain y where y: "b = Finite y" "lb \<le> y" "y \<le> hb" by (auto simp: between_def)
  have ypos: "0 < y" using y pos by linarith
  have "la / hb \<le> x / y"
    using x y pos ypos by (intro frac_le) simp_all
  moreover have "x / y \<le> ha / lb"
    using x y pos ypos by (intro frac_le) simp_all
  ultimately have "between lo hi (binary64 (x / y))"
    using range lo hi by (intro between_binary64[of "la / hb" _ "ha / lb"]) simp_all
  then show ?thesis using ypos by (simp add: x y)
qed

lemma between_mul:
  assumes a: "between la ha a" and b: "between lb hb b" and pos: "0 \<le> la" "0 \<le> lb"
    and range: "1 / 2 ^ 200 \<le> la * lb" "ha * hb \<le> 2 ^ 200"
    and lo: "lo \<le> la * lb * (1 - 1 / 2 ^ 53)" and hi: "ha * hb * (1 + 1 / 2 ^ 53) \<le> hi"
  shows "between lo hi (num_mul a b)"
proof -
  from a obtain x where x: "a = Finite x" "la \<le> x" "x \<le> ha" by (auto simp: between_def)
  from b obtain y where y: "b = Finite y" "lb \<le> y" "y \<le> hb" by (auto simp: between_def)
  have "la * lb \<le> x * y" using x y pos by (intro mult_mono) simp_all
  moreover have "x * y \<le> ha * hb" using x y pos by (intro mult_mono) simp_all
  ultimately have "between lo hi (binary64 (x * y))"
    using range lo hi by (intro between_binary64[of "la * lb" _ "ha * hb"]) simp_all
  then show ?thesis by (simp add: x y)
qed

lemma between_sqrt:
  assumes a: "between l h a" and s: "0 \<le> sl" "sl\<^sup>2 \<le> l" "0 \<le> sh" "h \<le> sh\<^sup>2"
    and range: "1 / 2 ^ 200 \<le> sl" "sh \<le> 2 ^ 200"
    and lo: "lo \<le> sl * (1 - 1 / 2 ^ 53)" and hi: "sh * (1 + 1 / 2 ^ 53) \<le> hi"
  shows "between lo hi (Math_sqrt a)"
proof -
  from a obtain x where x: "a = Finite x" "l \<le> x" "x \<le> h" by (auto simp: between_def)
  have x0: "0 \<le> x" using x s(2) by (smt (verit) zero_le_power2)
  have lx: "sl\<^sup>2 \<le> x" and xh: "x \<le> sh\<^sup>2" using x s(2,4) by linarith+
  have "sl = sqrt (sl\<^sup>2)" using s(1) by simp
  also have "\<dots> \<le> sqrt x" using lx by (simp only: real_sqrt_le_iff)
  finally have 1: "sl \<le> sqrt x" .
  have "sqrt x \<le> sqrt (sh\<^sup>2)" using xh by (simp only: real_sqrt_le_iff)
  also have "\<dots> = sh" using s(3) by simp
  finally have 2: "sqrt x \<le> sh" .
  have "between lo hi (binary64 (sqrt x))"
    using 1 2 range lo hi by (intro between_binary64[of sl _ sh]) simp_all
  then show ?thesis using x0 by (simp add: x)
qed

lemma between_mono: "between l h v \<Longrightarrow> lo \<le> l \<Longrightarrow> h \<le> hi \<Longrightarrow> between lo hi v"
  by (auto simp: between_def)


section \<open>The grid solve\<close>

subsection \<open>The loop over the candidates\<close>

lemma grid_step_cases:
  "grid_step this vars x =
     (if feasible this x \<and> \<not> num_less (scale this x) (maxScale vars)
         \<and> \<not> (num_eq (scale this x) (maxScale vars) \<and> num_less (minCells vars) (numCells x))
      then taken this x else vars)"
  by (simp add: grid_step_def feasible_def taken_def)

lemma find_last_optimal_mono:
  assumes "find P xs = Some c" and "Q c" and "\<And>e. e \<in> set xs \<Longrightarrow> Q e \<Longrightarrow> P e"
  shows "find Q xs = Some c"
  using assms by (induction xs) (auto split: if_splits)

lemma find_Some_holds: "find P xs = Some c \<Longrightarrow> P c \<and> c \<in> set xs"
  by (induction xs) (auto split: if_splits)

lemma no_better_refl: "measured this c \<Longrightarrow> no_better this c c"
  by (auto simp: no_better_def measured_def)

lemma no_better_trans:
  "measured this a \<Longrightarrow> measured this b \<Longrightarrow> measured this c
   \<Longrightarrow> no_better this a b \<Longrightarrow> no_better this b c \<Longrightarrow> no_better this a c"
  by (auto simp: no_better_def measured_def)

text \<open>
  The loop invariant, for any list of candidates whose feasible members have a finite cell
  count and a finite positive scale: once a feasible candidate was met, the variables are
  those of the last optimal candidate among the ones met; before, they are the initial
  ones.
\<close>

lemma grid_fold_invariant:
  assumes fin: "\<And>c. c \<in> set cs \<Longrightarrow> feasible this c \<Longrightarrow> measured this c"
  shows "(if \<exists>c\<in>set cs. feasible this c
          then \<exists>c. find (optimal this cs) (rev cs) = Some c
                   \<and> foldl (grid_step this) grid_init cs = taken this c
          else foldl (grid_step this) grid_init cs = grid_init)"
  using fin
proof (induction cs rule: rev_induct)
  case Nil
  then show ?case by simp
next
  case (snoc x cs)
  let ?vars = "foldl (grid_step this) grid_init cs"
  have fin': "\<And>c. c \<in> set cs \<Longrightarrow> feasible this c \<Longrightarrow> measured this c"
    using snoc.prems by simp
  note IH = snoc.IH[OF fin']
  show ?case
  proof (cases "feasible this x")
    case nf: False
    have eq: "\<And>e. optimal this (cs @ [x]) e = optimal this cs e"
      using nf by (auto simp: optimal_def)
    have nx: "\<not> optimal this (cs @ [x]) x" using nf by (simp add: optimal_def)
    have st: "\<And>v. grid_step this v x = v"
      using nf by (simp add: grid_step_cases)
    show ?thesis using IH nf nx by (auto simp: st eq split: if_splits)
  next
    case fx: True
    then have mx: "measured this x" using snoc.prems by simp
    then obtain kx sx where x: "numCells x = Finite kx" "scale this x = Finite sx" "0 < sx"
      by (auto simp: measured_def)
    show ?thesis
    proof (cases "\<exists>c\<in>set cs. feasible this c")
      case False
      with IH have v: "?vars = grid_init" by simp
      have ox: "optimal this (cs @ [x]) x"
        using False fx mx by (auto simp: optimal_def no_better_refl)
      have "maxScale grid_init = Finite 0" by (simp add: grid_init_def)
      then have m0: "maxScale ?vars = Finite 0" by (simp only: v)
      have "grid_step this ?vars x = taken this x"
        using fx x by (simp add: m0 grid_step_cases)
      then show ?thesis using fx ox by simp
    next
      case True
      with IH obtain c where c: "find (optimal this cs) (rev cs) = Some c"
        and v: "?vars = taken this c" by auto
      from c have oc: "optimal this cs c" and cin: "c \<in> set cs"
        using find_Some_holds[of "optimal this cs" "rev cs" c] by simp_all
      from oc have fc: "feasible this c" by (simp add: optimal_def)
      have mc: "measured this c" using fin'[OF cin fc] .
      then obtain kc sc where cc: "numCells c = Finite kc" "scale this c = Finite sc" "0 < sc"
        by (auto simp: measured_def)
      have vs: "maxScale ?vars = Finite sc" "minCells ?vars = Finite kc"
        by (simp_all add: v taken_def cc)
      show ?thesis
      proof (cases "sx < sc \<or> (sx = sc \<and> kc < kx)")
        case worse: True
        then have nbx: "no_better this x c" by (auto simp: no_better_def x cc)
        have nxc: "\<not> no_better this c x" using worse by (auto simp: no_better_def x cc)
        have "grid_step this ?vars x = ?vars"
          using worse by (auto simp: grid_step_cases vs x)
        from this v have st: "grid_step this ?vars x = taken this c" by (rule trans)
        have nx: "\<not> optimal this (cs @ [x]) x"
          using nxc oc cin by (auto simp: optimal_def)
        have oc': "optimal this (cs @ [x]) c"
          using oc nbx by (auto simp: optimal_def)
        have "find (optimal this (cs @ [x])) (rev cs) = Some c"
          using c oc'
          by (rule find_last_optimal_mono[where P = "optimal this cs"
                and Q = "optimal this (cs @ [x])"]) (auto simp: optimal_def)
        then show ?thesis using fx nx st by simp
      next
        case better: False
        then have nbc: "no_better this c x" by (auto simp: no_better_def x cc)
        have st: "grid_step this ?vars x = taken this x"
          using better fx by (auto simp: grid_step_cases vs x)
        have "\<And>d. d \<in> set cs \<Longrightarrow> feasible this d \<Longrightarrow> no_better this d x"
        proof -
          fix d assume d: "d \<in> set cs" "feasible this d"
          then have "no_better this d c" using oc by (simp add: optimal_def)
          from no_better_trans[OF fin'[OF d] mc mx this nbc] show "no_better this d x" .
        qed
        then have ox: "optimal this (cs @ [x]) x"
          using fx mx by (auto simp: optimal_def no_better_refl)
        show ?thesis using fx ox st by simp
      qed
    qed
  qed
qed


subsection \<open>The ideal grid and the three candidates\<close>

lemma pixels_range: "pixels x \<Longrightarrow> between 1 (2 ^ 31) (Finite x)"
  by (simp add: pixels_def between_def)

lemma quotient_of_pixels:
  assumes "pixels x" and "pixels y"
  shows "between (1 / 2 ^ 32) (2 ^ 32) (num_div (Finite x) (Finite y))"
  by (rule between_div[OF pixels_range[OF assms(1)] pixels_range[OF assms(2)]]) simp_all

lemma scaleFactor_range:
  assumes "geometry_ok this"
  shows "between (1 / 2 ^ 65) (2 ^ 65) (scaleFactor this)"
proof -
  have p: "pixels (offsetHeight this)" "pixels (tileScaleHeight' this)"
    "pixels (offsetWidth this)" "pixels (tileScaleWidth' this)"
    using assms by (simp_all add: geometry_ok_def scale_ok_def)
  show ?thesis
    unfolding scaleFactor_def
    by (rule between_div[OF quotient_of_pixels[OF p(1,2)] quotient_of_pixels[OF p(3,4)]])
      simp_all
qed

text \<open>
  The ideal numbers of columns and rows are finite and positive, and their product differs
  from the number of tiles by less than 1: the scale factor cancels, and each of the four
  roundings changes the product by a factor within \<open>2\<^sup>-\<^sup>5\<^sup>3\<close> of 1.
\<close>

lemma ideal_grid:
  assumes "geometry_ok this"
  shows "\<exists>gw gh. gridWidth this = Finite gw \<and> gridHeight this = Finite gh
           \<and> 0 < gw \<and> 0 < gh \<and> gw \<le> 2 ^ 50 \<and> gh \<le> 2 ^ 50
           \<and> real_of_int (numTiles this) - 1 < gw * gh \<and> gw * gh \<le> 2 ^ 33"
proof -
  define n where "n = real_of_int (numTiles this)"
  define d :: real where "d = 1 - 1 / 2 ^ 53"
  define e :: real where "e = 1 + 1 / 2 ^ 53"
  have d: "0 < d" "d \<le> 1" "1 / 2 \<le> d" and d3: "1 - d ^ 3 < 1 / 2 ^ 32"
    by (simp_all add: d_def power3_eq_cube)
  have e: "1 \<le> e" "e \<le> 2" and e3: "e ^ 3 \<le> 2" by (simp_all add: e_def power3_eq_cube)
  have n: "1 \<le> n" "n \<le> 2 ^ 32"
  proof -
    have "1 \<le> numTiles this" "numTiles this \<le> 2 ^ 32"
      using assms by (simp_all add: geometry_ok_def scale_ok_def)
    then show "1 \<le> n" "n \<le> 2 ^ 32" unfolding n_def by (simp_all add: of_int_le_numeral_power_cancel_iff)
  qed
  from scaleFactor_range[OF assms] obtain s
    where s: "scaleFactor this = Finite s" "1 / 2 ^ 65 \<le> s" "s \<le> 2 ^ 65"
    by (auto simp: between_def)
  have s0: "0 < s" using s(2) by (smt (verit) divide_pos_pos zero_less_numeral zero_less_power)
  \<comment> \<open>the two products under the square roots\<close>
  have sn: "1 / 2 ^ 65 \<le> s * n" "s * n \<le> 2 ^ 97"
  proof -
    have "s * 1 \<le> s * n" using n s0 by (intro mult_left_mono) simp_all
    then have "s \<le> s * n" by simp
    then show "1 / 2 ^ 65 \<le> s * n" using s(2) by linarith
    have "s * n \<le> 2 ^ 65 * 2 ^ 32" using n s s0 by (intro mult_mono) simp_all
    then show "s * n \<le> 2 ^ 97" by simp
  qed
  have ns: "1 / 2 ^ 65 \<le> n / s" "n / s \<le> 2 ^ 97"
  proof -
    have "1 / 2 ^ 65 \<le> 1 / s" using s s0 by (simp add: field_simps)
    also have "\<dots> \<le> n / s" using n s0 by (simp add: divide_right_mono)
    finally show "1 / 2 ^ 65 \<le> n / s" .
    have "n / s \<le> 2 ^ 32 / (1 / 2 ^ 65)" using n s s0 by (intro frac_le) simp_all
    then show "n / s \<le> 2 ^ 97" by simp
  qed
  obtain p where p: "binary64 (s * n) = Finite p" "s * n * d \<le> p" "p \<le> s * n * e"
    using binary64_bounds_in[OF sn] unfolding d_def e_def by auto
  obtain q where q: "binary64 (n / s) = Finite q" "n / s * d \<le> q" "q \<le> n / s * e"
    using binary64_bounds_in[OF ns] unfolding d_def e_def by auto
  have p_range: "(1 / 2 ^ 33)\<^sup>2 \<le> p" "p \<le> (2 ^ 49)\<^sup>2"
  proof -
    have "1 / 2 ^ 65 * (1 / 2) \<le> s * n * d" using sn d by (intro mult_mono) simp_all
    moreover have "((1::real) / 2 ^ 33)\<^sup>2 = 1 / 2 ^ 65 * (1 / 2)" by (simp add: power2_eq_square)
    ultimately show "(1 / 2 ^ 33)\<^sup>2 \<le> p" using p(2) by linarith
    have "s * n * e \<le> 2 ^ 97 * 2" using sn e s0 n by (intro mult_mono) simp_all
    moreover have "((2::real) ^ 49)\<^sup>2 = 2 ^ 97 * 2" by (simp add: power2_eq_square)
    ultimately show "p \<le> (2 ^ 49)\<^sup>2" using p(3) by linarith
  qed
  have q_range: "(1 / 2 ^ 33)\<^sup>2 \<le> q" "q \<le> (2 ^ 49)\<^sup>2"
  proof -
    have "0 \<le> n / s" using n s0 by simp
    then have "1 / 2 ^ 65 * (1 / 2) \<le> n / s * d" using ns d by (intro mult_mono) simp_all
    moreover have "((1::real) / 2 ^ 33)\<^sup>2 = 1 / 2 ^ 65 * (1 / 2)" by (simp add: power2_eq_square)
    ultimately show "(1 / 2 ^ 33)\<^sup>2 \<le> q" using q(2) by linarith
    have "n / s * e \<le> 2 ^ 97 * 2" using ns e s0 n by (intro mult_mono) simp_all
    moreover have "((2::real) ^ 49)\<^sup>2 = 2 ^ 97 * 2" by (simp add: power2_eq_square)
    ultimately show "q \<le> (2 ^ 49)\<^sup>2" using q(3) by linarith
  qed
  have p0: "0 < p" using p_range(1) by (smt (verit) zero_less_power divide_pos_pos zero_less_numeral zero_less_one)
  have q0: "0 < q" using q_range(1) by (smt (verit) zero_less_power divide_pos_pos zero_less_numeral zero_less_one)
  have sp: "1 / 2 ^ 33 \<le> sqrt p" "sqrt p \<le> 2 ^ 49"
    by (rule real_le_rsqrt[OF p_range(1)], rule real_le_lsqrt[OF _ p_range(2)]) simp
  have sq: "1 / 2 ^ 33 \<le> sqrt q" "sqrt q \<le> 2 ^ 49"
    by (rule real_le_rsqrt[OF q_range(1)], rule real_le_lsqrt[OF _ q_range(2)]) simp
  obtain gh where gh: "binary64 (sqrt p) = Finite gh" "sqrt p * d \<le> gh" "gh \<le> sqrt p * e"
    using binary64_bounds_in[OF sp] unfolding d_def e_def by auto
  obtain gw where gw: "binary64 (sqrt q) = Finite gw" "sqrt q * d \<le> gw" "gw \<le> sqrt q * e"
    using binary64_bounds_in[OF sq] unfolding d_def e_def by auto
  have H: "gridHeight this = Finite gh"
    using p0 by (simp add: gridHeight_def s(1) n_def[symmetric] p(1) gh(1))
  have W: "gridWidth this = Finite gw"
    using q0 s0 by (simp add: gridWidth_def s(1) n_def[symmetric] q(1) gw(1))
  have pos: "0 < gw" "0 < gh"
  proof -
    have "0 < sqrt q * d" "0 < sqrt p * d" using p0 q0 d by simp_all
    then show "0 < gw" "0 < gh" using gw(2) gh(2) by linarith+
  qed
  have up: "gw \<le> 2 ^ 50" "gh \<le> 2 ^ 50"
  proof -
    have "sqrt q * e \<le> 2 ^ 49 * 2"
      using sq(2) e by (intro mult_mono) simp_all
    moreover have "sqrt p * e \<le> 2 ^ 49 * 2"
      using sp(2) e by (intro mult_mono) simp_all
    ultimately show "gw \<le> 2 ^ 50" "gh \<le> 2 ^ 50" using gw(3) gh(3) by simp_all
  qed
  \<comment> \<open>the product of the two square roots\<close>
  have qp: "q * p \<le> (n * e)\<^sup>2" "(n * d)\<^sup>2 \<le> q * p"
  proof -
    have "q * p \<le> (n / s * e) * (s * n * e)"
      using q(3) p(3) p0 q0 by (intro mult_mono) simp_all
    also have "\<dots> = (n * e)\<^sup>2" using s0 by (simp add: power2_eq_square)
    finally show "q * p \<le> (n * e)\<^sup>2" .
    have "(n / s * d) * (s * n * d) \<le> q * p"
      using q(2) p(2) n d s0 q0 p0 by (intro mult_mono) simp_all
    moreover have "(n / s * d) * (s * n * d) = (n * d)\<^sup>2" using s0 by (simp add: power2_eq_square)
    ultimately show "(n * d)\<^sup>2 \<le> q * p" by simp
  qed
  have "0 \<le> n * e" using n e by simp
  then have root: "n * d \<le> sqrt (q * p)" "sqrt (q * p) \<le> n * e"
    by (rule_tac real_le_rsqrt[OF qp(2)], rule_tac real_le_lsqrt[OF _ qp(1)])
  have lower: "n - 1 < gw * gh"
  proof -
    have "n * d ^ 3 = (n * d) * d * d" by (simp add: power3_eq_cube)
    also have "\<dots> \<le> sqrt (q * p) * d * d" using root(1) d by (intro mult_right_mono) simp_all
    also have "\<dots> = (sqrt q * d) * (sqrt p * d)" by (simp add: real_sqrt_mult)
    also have "\<dots> \<le> gw * gh" using gw(2) gh(2) d p0 q0 pos by (intro mult_mono) simp_all
    finally have "n * d ^ 3 \<le> gw * gh" .
    moreover have "n * (1 - d ^ 3) < 1"
    proof -
      have "0 \<le> 1 - d ^ 3" using d by (simp add: power_le_one)
      then have "n * (1 - d ^ 3) \<le> 2 ^ 32 * (1 - d ^ 3)" using n by (intro mult_right_mono) simp_all
      also have "\<dots> < 2 ^ 32 * (1 / 2 ^ 32)" using d3 by (intro mult_strict_left_mono) simp_all
      finally show ?thesis by simp
    qed
    ultimately show ?thesis by (simp add: algebra_simps)
  qed
  have upper: "gw * gh \<le> 2 ^ 33"
  proof -
    have "gw * gh \<le> (sqrt q * e) * (sqrt p * e)"
      using gw(3) gh(3) pos p0 q0 e by (intro mult_mono) simp_all
    also have "\<dots> = sqrt (q * p) * e * e" by (simp add: real_sqrt_mult)
    also have "\<dots> \<le> (n * e) * e * e" using root(2) e by (intro mult_right_mono) simp_all
    also have "\<dots> = n * e ^ 3" by (simp add: power3_eq_cube)
    also have "\<dots> \<le> 2 ^ 32 * 2" using n e3 e by (intro mult_mono) simp_all
    finally show ?thesis by simp
  qed
  show ?thesis
    using W H pos up lower upper unfolding n_def by blast
qed

text \<open>
  The three candidates are pairs of integers; the one of the two ceilings seats all tiles,
  and every cell count is below \<open>2\<^sup>5\<^sup>3\<close>, so that the product of columns and rows is exact.
\<close>

lemma geometry_candidates:
  assumes "geometry_ok this"
  shows "\<exists>C R c r :: int.
           gridOptions this =
             [(Finite (of_int C), Finite (of_int r)), (Finite (of_int c), Finite (of_int R)),
              (Finite (of_int C), Finite (of_int R))]
           \<and> Math_ceil (gridWidth this) = Finite (of_int C)
           \<and> Math_ceil (gridHeight this) = Finite (of_int R)
           \<and> 0 \<le> c \<and> c \<le> C \<and> 0 \<le> r \<and> r \<le> R \<and> C \<le> 2 ^ 50 \<and> R \<le> 2 ^ 50
           \<and> numTiles this \<le> C * R \<and> C * R \<le> 2 ^ 53"
proof -
  from ideal_grid[OF assms] obtain gw gh
    where g: "gridWidth this = Finite gw" "gridHeight this = Finite gh"
      and pos: "0 < gw" "0 < gh" and up: "gw \<le> 2 ^ 50" "gh \<le> 2 ^ 50"
      and lower: "real_of_int (numTiles this) - 1 < gw * gh" and upper: "gw * gh \<le> 2 ^ 33"
    by blast
  let ?C = "\<lceil>gw\<rceil>" and ?R = "\<lceil>gh\<rceil>" and ?c = "\<lfloor>gw\<rfloor>" and ?r = "\<lfloor>gh\<rfloor>"
  have o: "gridOptions this =
             [(Finite (of_int ?C), Finite (of_int ?r)), (Finite (of_int ?c), Finite (of_int ?R)),
              (Finite (of_int ?C), Finite (of_int ?R))]"
    by (simp add: gridOptions_def g)
  have fl: "0 \<le> ?c" "?c \<le> ?C" "0 \<le> ?r" "?r \<le> ?R"
    using pos by (simp_all add: floor_le_ceiling)
  have ub: "?C \<le> 2 ^ 50" "?R \<le> 2 ^ 50"
    using up by (simp_all add: ceiling_le_iff)
  have cpos: "0 < real_of_int ?C" "0 < real_of_int ?R" using pos by simp_all
  have "gw * gh \<le> real_of_int ?C * real_of_int ?R"
    using pos by (intro mult_mono) simp_all
  then have "real_of_int (numTiles this) - 1 < real_of_int (?C * ?R)" using lower by simp
  then have "real_of_int (numTiles this - 1) < real_of_int (?C * ?R)" by simp
  then have seats: "numTiles this \<le> ?C * ?R" by (simp only: of_int_less_iff)
  have "real_of_int ?C * real_of_int ?R \<le> (gw + 1) * (gh + 1)"
    using pos cpos by (intro mult_mono) (simp_all add: less_imp_le)
  also have "\<dots> = gw * gh + gw + gh + 1" by (simp add: algebra_simps)
  also have "\<dots> \<le> 2 ^ 33 + 2 ^ 50 + 2 ^ 50 + 1" using upper up by linarith
  also have "\<dots> \<le> 2 ^ 53" by simp
  finally have "real_of_int (?C * ?R) \<le> 2 ^ 53" by simp
  then have exact: "?C * ?R \<le> 2 ^ 53" by (simp only: of_int_le_numeral_power_cancel_iff)
  show ?thesis
    using o fl ub seats exact g
    by (intro exI[of _ ?C] exI[of _ ?R] exI[of _ ?c] exI[of _ ?r]) simp
qed

lemma numCells_exact:
  assumes "0 \<le> c" and "c \<le> C" and "0 \<le> r" and "r \<le> R" and "C * R \<le> 2 ^ 53"
  shows "numCells (Finite (of_int c), Finite (of_int r)) = Finite (of_int (c * r))"
proof -
  have "c * r \<le> C * R" using assms by (intro mult_mono) simp_all
  moreover have "0 \<le> c * r" using assms by simp
  ultimately have "\<bar>c * r\<bar> \<le> 2 ^ 53" using assms(5) by simp
  from binary64_of_int[OF this] show ?thesis by (simp add: numCells_def)
qed

text \<open>A candidate of at least one column and one row has a finite positive scale.\<close>

lemma candidate_scales:
  assumes "geometry_ok this" and "1 \<le> c" and "c \<le> 2 ^ 50" and "1 \<le> r" and "r \<le> 2 ^ 50"
  shows "\<exists>w h. widthScale this (Finite (of_int c), Finite (of_int r)) = Finite w
           \<and> heightScale this (Finite (of_int c), Finite (of_int r)) = Finite h
           \<and> 0 < w \<and> 0 < h
           \<and> scale this (Finite (of_int c), Finite (of_int r)) = Finite (min w h)"
proof -
  have p: "pixels (offsetHeight this)" "pixels (tileScaleHeight' this)"
    "pixels (offsetWidth this)" "pixels (tileScaleWidth' this)"
    using assms(1) by (simp_all add: geometry_ok_def scale_ok_def)
  have c: "between 1 (2 ^ 50) (Finite (of_int c))" "between 1 (2 ^ 50) (Finite (of_int r))"
    using assms(2-5) by (simp_all add: between_def of_int_le_numeral_power_cancel_iff)
  have "between (1 / 2 ^ 51) (2 ^ 32) (num_div (Finite (offsetWidth this)) (Finite (of_int c)))"
    by (rule between_div[OF pixels_range[OF p(3)] c(1)]) simp_all
  from between_div[OF this pixels_range[OF p(4)], of "1 / 2 ^ 83" "2 ^ 33"]
  have "between (1 / 2 ^ 83) (2 ^ 33) (widthScale this (Finite (of_int c), Finite (of_int r)))"
    by (simp add: widthScale_def)
  then obtain w where w: "widthScale this (Finite (of_int c), Finite (of_int r)) = Finite w"
    "0 < w" by (auto simp: between_def)
  have "between (1 / 2 ^ 51) (2 ^ 32) (num_div (Finite (offsetHeight this)) (Finite (of_int r)))"
    by (rule between_div[OF pixels_range[OF p(1)] c(2)]) simp_all
  from between_div[OF this pixels_range[OF p(2)], of "1 / 2 ^ 83" "2 ^ 33"]
  have "between (1 / 2 ^ 83) (2 ^ 33) (heightScale this (Finite (of_int c), Finite (of_int r)))"
    by (simp add: heightScale_def)
  then obtain h where h: "heightScale this (Finite (of_int c), Finite (of_int r)) = Finite h"
    "0 < h" by (auto simp: between_def)
  have "scale this (Finite (of_int c), Finite (of_int r)) = Finite (min w h)"
    by (simp add: scale_def w h min_def)
  then show ?thesis using w h by blast
qed

text \<open>Among the three candidates, a feasible one has at least one column and one row.\<close>

lemma feasible_candidate:
  assumes "geometry_ok this" and "x \<in> set (gridOptions this)" and "feasible this x"
  shows "\<exists>c r :: int. x = (Finite (of_int c), Finite (of_int r)) \<and> 1 \<le> c \<and> c \<le> 2 ^ 50
           \<and> 1 \<le> r \<and> r \<le> 2 ^ 50 \<and> numCells x = Finite (of_int (c * r))
           \<and> numTiles this \<le> c * r"
proof -
  from geometry_candidates[OF assms(1)] obtain C R c r :: int
    where o: "gridOptions this =
             [(Finite (of_int C), Finite (of_int r)), (Finite (of_int c), Finite (of_int R)),
              (Finite (of_int C), Finite (of_int R))]"
      and b: "0 \<le> c" "c \<le> C" "0 \<le> r" "r \<le> R" "C \<le> 2 ^ 50" "R \<le> 2 ^ 50"
      and ex: "C * R \<le> 2 ^ 53"
    by blast
  have n1: "1 \<le> numTiles this" using assms(1) by (simp add: geometry_ok_def)
  have C0: "0 \<le> C" "0 \<le> R" using b by linarith+
  from assms(2) o obtain a b' :: int
    where x: "x = (Finite (of_int a), Finite (of_int b'))" and a: "0 \<le> a" "a \<le> C"
      and b': "0 \<le> b'" "b' \<le> R"
    using b C0 by auto
  have cells: "numCells x = Finite (of_int (a * b'))"
    unfolding x by (rule numCells_exact[OF a b' ex])
  from assms(3) have "\<not> real_of_int (a * b') < real_of_int (numTiles this)"
    by (simp add: feasible_def cells del: of_int_mult)
  then have seats: "numTiles this \<le> a * b'" by (simp only: of_int_less_iff not_less)
  then have "1 \<le> a * b'" using n1 by linarith
  then have "a \<noteq> 0" "b' \<noteq> 0" by auto
  then have "1 \<le> a" "1 \<le> b'" using a b' by linarith+
  then show ?thesis
    using x a b' b cells seats
    by (intro exI[of _ a] exI[of _ b']) simp
qed

lemma feasible_measured:
  assumes "geometry_ok this" and "x \<in> set (gridOptions this)" and "feasible this x"
  shows "measured this x"
proof -
  from feasible_candidate[OF assms] obtain c r :: int
    where x: "x = (Finite (of_int c), Finite (of_int r))" and b: "1 \<le> c" "c \<le> 2 ^ 50"
      "1 \<le> r" "r \<le> 2 ^ 50" and cells: "numCells x = Finite (of_int (c * r))"
    by blast
  from candidate_scales[OF assms(1) b] obtain w h
    where "0 < w" "0 < h" "scale this x = Finite (min w h)" unfolding x by blast
  then show ?thesis using cells by (auto simp: measured_def)
qed

lemma ceil_candidate_feasible:
  assumes "geometry_ok this"
  shows "feasible this (Math_ceil (gridWidth this), Math_ceil (gridHeight this))"
proof -
  from geometry_candidates[OF assms] obtain C R c r :: int
    where g: "Math_ceil (gridWidth this) = Finite (of_int C)"
      "Math_ceil (gridHeight this) = Finite (of_int R)"
      and b: "0 \<le> c" "c \<le> C" "0 \<le> r" "r \<le> R"
      and n: "numTiles this \<le> C * R" and ex: "C * R \<le> 2 ^ 53"
    by blast
  have "0 \<le> C" "0 \<le> R" using b by linarith+
  from numCells_exact[OF this(1) order_refl this(2) order_refl ex]
  have "numCells (Finite (of_int C), Finite (of_int R)) = Finite (of_int (C * R))" .
  moreover have "\<not> real_of_int (C * R) < real_of_int (numTiles this)"
    using n by (simp only: of_int_less_iff not_less)
  ultimately show ?thesis by (simp add: feasible_def g del: of_int_mult)
qed

lemma grid_search_last_optimal:
  assumes "geometry_ok this"
  shows "\<exists>c. find (optimal this (gridOptions this)) (rev (gridOptions this)) = Some c
           \<and> grid_search this = taken this c"
proof -
  have "(Math_ceil (gridWidth this), Math_ceil (gridHeight this)) \<in> set (gridOptions this)"
    by (simp add: gridOptions_def)
  then have "\<exists>c\<in>set (gridOptions this). feasible this c"
    using ceil_candidate_feasible[OF assms] by blast
  with grid_fold_invariant[of "gridOptions this" this, OF feasible_measured[OF assms]]
  show ?thesis by (simp add: grid_search_def)
qed

text \<open>The shape returned: whole columns and rows, few enough for the loops that lay them out.\<close>

lemma calculateGrid_shape:
  assumes "geometry_ok this"
  shows "\<exists>c r :: int. gridWidthCells (calculateGrid' this) = Some (Finite (of_int c))
           \<and> gridHeightCells (calculateGrid' this) = Some (Finite (of_int r))
           \<and> 1 \<le> c \<and> c \<le> 2 ^ 50 \<and> 1 \<le> r \<and> r \<le> 2 ^ 50 \<and> numTiles this \<le> c * r"
proof -
  from grid_search_last_optimal[OF assms] obtain x
    where f: "find (optimal this (gridOptions this)) (rev (gridOptions this)) = Some x"
      and g: "grid_search this = taken this x" by blast
  from find_Some_holds[OF f] have o: "optimal this (gridOptions this) x"
    and m: "x \<in> set (gridOptions this)" by simp_all
  from o have fx: "feasible this x" by (simp add: optimal_def)
  from feasible_candidate[OF assms m fx] obtain c r :: int
    where x: "x = (Finite (of_int c), Finite (of_int r))"
      and p: "1 \<le> c" "c \<le> 2 ^ 50" "1 \<le> r" "r \<le> 2 ^ 50"
      and n: "numTiles this \<le> c * r" by blast
  have "gridWidthCells (calculateGrid' this) = Some (Finite (of_int c))"
       "gridHeightCells (calculateGrid' this) = Some (Finite (of_int r))"
    by (simp_all add: calculateGrid'_def g taken_def Let_def x)
  then show ?thesis using p n by blast
qed


subsection \<open>Comparing numbers by their bounds\<close>

lemma between_less:
  "between l1 h1 a \<Longrightarrow> between l2 h2 b \<Longrightarrow> h1 < l2 \<Longrightarrow> num_less a b"
  by (auto simp: between_def)

lemma between_not_less:
  "between l1 h1 a \<Longrightarrow> between l2 h2 b \<Longrightarrow> h2 \<le> l1 \<Longrightarrow> \<not> num_less a b"
  by (auto simp: between_def)

lemma between_not_eq:
  "between l1 h1 a \<Longrightarrow> between l2 h2 b \<Longrightarrow> h1 < l2 \<Longrightarrow> \<not> num_eq a b \<and> \<not> num_eq b a"
  by (auto simp: between_def)

lemma between_ceil:
  "between l h v \<Longrightarrow> real_of_int k - 1 < l \<Longrightarrow> h \<le> real_of_int k
   \<Longrightarrow> Math_ceil v = Finite (real_of_int k)"
proof -
  assume "between l h v" and k: "real_of_int k - 1 < l" "h \<le> real_of_int k"
  then obtain r where r: "v = Finite r" "l \<le> r" "r \<le> h" by (auto simp: between_def)
  have "\<lceil>r\<rceil> = k" using r k by (intro ceiling_unique) linarith+
  then show ?thesis by (simp add: r)
qed

lemma between_floor:
  "between l h v \<Longrightarrow> real_of_int k \<le> l \<Longrightarrow> h < real_of_int k + 1
   \<Longrightarrow> Math_floor v = Finite (real_of_int k)"
proof -
  assume "between l h v" and k: "real_of_int k \<le> l" "h < real_of_int k + 1"
  then obtain r where r: "v = Finite r" "l \<le> r" "r \<le> h" by (auto simp: between_def)
  have "\<lfloor>r\<rfloor> = k" using r k by (intro floor_unique) linarith+
  then show ?thesis by (simp add: r)
qed

lemma exactly: "between x x (Finite x)"
  by (simp add: between_def)

subsection \<open>The solve of four feeds in 700 by 500\<close>

lemma quad_ideal:
  assumes "geometry this = (700, 500, 160, 120, 4)"
  shows "between (94 / 100) (96 / 100) (scaleFactor this)"
    and "between (2005 / 1000) (22 / 10) (gridWidth this)"
    and "between (18 / 10) (1995 / 1000) (gridHeight this)"
proof -
  have g: "offsetWidth this = 700" "offsetHeight this = 500" "tileScaleWidth' this = 160"
    "tileScaleHeight' this = 120" "numTiles this = 4"
    using assms by (simp_all add: geometry_def)
  have a: "between (416 / 100) (417 / 100) (num_div (Finite 500) (Finite 120))"
    by (rule between_div[OF exactly exactly]) simp_all
  have b: "between (437 / 100) (438 / 100) (num_div (Finite 700) (Finite 160))"
    by (rule between_div[OF exactly exactly]) simp_all
  show s: "between (94 / 100) (96 / 100) (scaleFactor this)"
    unfolding scaleFactor_def g by (rule between_div[OF a b]) simp_all
  have q: "between (41 / 10) (43 / 10) (num_div (Finite 4) (scaleFactor this))"
    by (rule between_div[OF exactly s]) simp_all
  have "between (2005 / 1000) (22 / 10) (Math_sqrt (num_div (Finite 4) (scaleFactor this)))"
    by (rule between_sqrt[OF q, where sl = "201 / 100" and sh = "21 / 10"])
      (simp_all add: power2_eq_square)
  then show "between (2005 / 1000) (22 / 10) (gridWidth this)"
    by (simp add: gridWidth_def g)
  have p: "between (37 / 10) (39 / 10) (num_mul (scaleFactor this) (Finite 4))"
    by (rule between_mul[OF s exactly]) simp_all
  have "between (18 / 10) (1995 / 1000) (Math_sqrt (num_mul (scaleFactor this) (Finite 4)))"
    by (rule between_sqrt[OF p, where sl = "19 / 10" and sh = "199 / 100"])
      (simp_all add: power2_eq_square)
  then show "between (18 / 10) (1995 / 1000) (gridHeight this)"
    by (simp add: gridHeight_def g)
qed

lemma quad_gridOptions:
  assumes "geometry this = (700, 500, 160, 120, 4)"
  shows "gridOptions this = [(Finite 3, Finite 1), (Finite 2, Finite 2), (Finite 3, Finite 2)]"
proof -
  note i = quad_ideal[OF assms]
  have "Math_ceil (gridWidth this) = Finite (real_of_int 3)"
    by (rule between_ceil[OF i(2)]) simp_all
  moreover have "Math_floor (gridWidth this) = Finite (real_of_int 2)"
    by (rule between_floor[OF i(2)]) simp_all
  moreover have "Math_ceil (gridHeight this) = Finite (real_of_int 2)"
    by (rule between_ceil[OF i(3)]) simp_all
  moreover have "Math_floor (gridHeight this) = Finite (real_of_int 1)"
    by (rule between_floor[OF i(3)]) simp_all
  ultimately show ?thesis by (simp add: gridOptions_def)
qed

lemma quad_scales:
  assumes "geometry this = (700, 500, 160, 120, 4)"
  shows "between (218 / 100) (219 / 100) (widthScale this (Finite 2, Finite 2))"
    and "between (208 / 100) (209 / 100) (heightScale this (Finite 2, Finite 2))"
    and "between (145 / 100) (146 / 100) (widthScale this (Finite 3, Finite 2))"
    and "heightScale this (Finite 3, Finite 2) = heightScale this (Finite 2, Finite 2)"
proof -
  have g: "offsetWidth this = 700" "offsetHeight this = 500" "tileScaleWidth' this = 160"
    "tileScaleHeight' this = 120" "numTiles this = 4"
    using assms by (simp_all add: geometry_def)
  have "between (218 / 100) (219 / 100) (num_div (Finite 350) (Finite 160))"
    by (rule between_div[OF exactly exactly]) simp_all
  then show "between (218 / 100) (219 / 100) (widthScale this (Finite 2, Finite 2))"
    by (simp add: widthScale_def g)
  have "between (208 / 100) (209 / 100) (num_div (Finite 250) (Finite 120))"
    by (rule between_div[OF exactly exactly]) simp_all
  then show "between (208 / 100) (209 / 100) (heightScale this (Finite 2, Finite 2))"
    by (simp add: heightScale_def g)
  have "between (2333 / 10) (2334 / 10) (num_div (Finite 700) (Finite 3))"
    by (rule between_div[OF exactly exactly]) simp_all
  from between_div[OF this exactly[of 160], of "145 / 100" "146 / 100"]
  show "between (145 / 100) (146 / 100) (widthScale this (Finite 3, Finite 2))"
    unfolding widthScale_def g fst_conv by simp
  show "heightScale this (Finite 3, Finite 2) = heightScale this (Finite 2, Finite 2)"
    by (simp add: heightScale_def)
qed

lemma quad_grid_search:
  assumes "geometry this = (700, 500, 160, 120, 4)"
  shows "grid_search this = taken this (Finite 2, Finite 2)"
    and "scale this (Finite 2, Finite 2) = heightScale this (Finite 2, Finite 2)"
    and "constraint_of this (Finite 2, Finite 2) = Height"
proof -
  note sc = quad_scales[OF assms]
  have n: "numTiles this = 4" using assms by (simp add: geometry_def)
  have w22: "\<not> num_less (widthScale this (Finite 2, Finite 2)) (heightScale this (Finite 2, Finite 2))"
    by (rule between_not_less[OF sc(1,2)]) simp
  show s22: "scale this (Finite 2, Finite 2) = heightScale this (Finite 2, Finite 2)"
    and "constraint_of this (Finite 2, Finite 2) = Height"
    using w22 by (simp_all add: scale_def constraint_of_def)
  have w32: "num_less (widthScale this (Finite 3, Finite 2)) (heightScale this (Finite 2, Finite 2))"
    by (rule between_less[OF sc(3,2)]) simp
  then have s32: "scale this (Finite 3, Finite 2) = widthScale this (Finite 3, Finite 2)"
    by (simp add: scale_def sc(4))
  have first: "\<not> num_less (heightScale this (Finite 2, Finite 2)) (Finite 0)"
    "\<not> num_eq (heightScale this (Finite 2, Finite 2)) (Finite 0)"
    using between_not_less[OF sc(2) exactly[of 0]] between_not_eq[OF exactly[of 0] sc(2)]
    by simp_all
  show "grid_search this = taken this (Finite 2, Finite 2)"
    by (simp add: grid_search_def quad_gridOptions[OF assms] grid_step_cases feasible_def
        numCells_def n grid_init_def)
      (simp add: taken_def s22 s32 first w32)
qed

lemma quad_calculateGrid:
  assumes "geometry this = (700, 500, 160, 120, 4)"
  shows "gridWidthCells (calculateGrid' this) = Some (Finite 2)"
    and "gridHeightCells (calculateGrid' this) = Some (Finite 2)"
    and "constraint (calculateGrid' this) = Some Height"
    and "containerConstraint (calculateGrid' this) = Height"
    and "between 332 335 (cellWidthPx (calculateGrid' this))"
    and "between 249 251 (cellHeightPx (calculateGrid' this))"
proof -
  note gs = quad_grid_search[OF assms] and sc = quad_scales[OF assms]
  have g: "tileScaleWidth' this = 160" "tileScaleHeight' this = 120"
    using assms by (simp_all add: geometry_def)
  show "gridWidthCells (calculateGrid' this) = Some (Finite 2)"
    "gridHeightCells (calculateGrid' this) = Some (Finite 2)"
    "constraint (calculateGrid' this) = Some Height"
    by (simp_all add: calculateGrid'_def Let_def gs taken_def)
  have "\<not> num_less (Finite 1) (scaleFactor this)"
    by (rule between_not_less[OF exactly quad_ideal(1)[OF assms]]) simp
  then show "containerConstraint (calculateGrid' this) = Height"
    by (simp add: calculateGrid'_def Let_def)
  have "between 332 335 (num_mul (Finite 160) (heightScale this (Finite 2, Finite 2)))"
    by (rule between_mul[OF exactly sc(2)]) simp_all
  then show "between 332 335 (cellWidthPx (calculateGrid' this))"
    by (simp add: calculateGrid'_def Let_def gs taken_def g)
  have "between 249 251 (num_mul (Finite 120) (heightScale this (Finite 2, Finite 2)))"
    by (rule between_mul[OF exactly sc(2)]) simp_all
  then show "between 249 251 (cellHeightPx (calculateGrid' this))"
    by (simp add: calculateGrid'_def Let_def gs taken_def g)
qed

lemma demo_geometry: "geometry_ok demo" "geometry demo = (700, 500, 160, 120, 4)"
  by (simp_all add: geometry_ok_def scale_ok_def pixels_def geometry_def demo_def numTiles_def
      demo_urls_def)

subsection \<open>The solve of two feeds in 640 by 480\<close>

lemma sqrt_2_between: "between (13 / 10) (16 / 10) (Math_sqrt (Finite 2))"
  by (rule between_sqrt[OF exactly, where sl = "14 / 10" and sh = "15 / 10"])
    (simp_all add: power2_eq_square)

lemma pair_gridOptions:
  assumes "geometry this = (640, 480, 160, 120, 2)"
  shows "gridOptions this = [(Finite 2, Finite 1), (Finite 1, Finite 2), (Finite 2, Finite 2)]"
    and "scaleFactor this = Finite 1"
proof -
  have g: "offsetWidth this = 640" "offsetHeight this = 480" "tileScaleWidth' this = 160"
    "tileScaleHeight' this = 120" "numTiles this = 2"
    using assms by (simp_all add: geometry_def)
  show s: "scaleFactor this = Finite 1" by (simp add: scaleFactor_def g)
  have w: "gridWidth this = Math_sqrt (Finite 2)" "gridHeight this = Math_sqrt (Finite 2)"
    by (simp_all add: gridWidth_def gridHeight_def s g)
  have "Math_ceil (Math_sqrt (Finite 2)) = Finite (real_of_int 2)"
    by (rule between_ceil[OF sqrt_2_between]) simp_all
  moreover have "Math_floor (Math_sqrt (Finite 2)) = Finite (real_of_int 1)"
    by (rule between_floor[OF sqrt_2_between]) simp_all
  ultimately show "gridOptions this =
      [(Finite 2, Finite 1), (Finite 1, Finite 2), (Finite 2, Finite 2)]"
    by (simp add: gridOptions_def w)
qed

lemma pair_scales:
  assumes "geometry this = (640, 480, 160, 120, 2)"
  shows "scale this (Finite 2, Finite 1) = Finite 2" "scale this (Finite 1, Finite 2) = Finite 2"
    "scale this (Finite 2, Finite 2) = Finite 2"
    "constraint_of this (Finite 2, Finite 1) = Width"
    "constraint_of this (Finite 1, Finite 2) = Height"
    "numCells (Finite 2, Finite 1) = Finite 2" "numCells (Finite 1, Finite 2) = Finite 2"
    "numCells (Finite 2, Finite 2) = Finite 4"
proof -
  have g: "offsetWidth this = 640" "offsetHeight this = 480" "tileScaleWidth' this = 160"
    "tileScaleHeight' this = 120" "numTiles this = 2"
    using assms by (simp_all add: geometry_def)
  show "scale this (Finite 2, Finite 1) = Finite 2" "scale this (Finite 1, Finite 2) = Finite 2"
    "scale this (Finite 2, Finite 2) = Finite 2"
    "constraint_of this (Finite 2, Finite 1) = Width"
    "constraint_of this (Finite 1, Finite 2) = Height"
    by (simp_all add: scale_def constraint_of_def widthScale_def heightScale_def g)
  show "numCells (Finite 2, Finite 1) = Finite 2" "numCells (Finite 1, Finite 2) = Finite 2"
    "numCells (Finite 2, Finite 2) = Finite 4"
    by (simp_all add: numCells_def)
qed

lemma pair_grid_search:
  assumes "geometry this = (640, 480, 160, 120, 2)"
  shows "grid_search this = taken this (Finite 1, Finite 2)"
proof -
  have n: "numTiles this = 2" using assms by (simp add: geometry_def)
  show ?thesis
    by (simp add: grid_search_def pair_gridOptions[OF assms] grid_step_cases feasible_def
        pair_scales[OF assms] n grid_init_def)
      (simp add: taken_def pair_scales[OF assms])
qed

lemma pair_calculateGrid:
  assumes "geometry this = (640, 480, 160, 120, 2)"
  shows "calculateGrid' this =
     \<lparr>gridWidthCells = Some (Finite 1), gridHeightCells = Some (Finite 2),
      constraint = Some Height, containerConstraint = Height,
      cellWidthPx = Finite 320, cellHeightPx = Finite 240\<rparr>"
proof -
  have g: "tileScaleWidth' this = 160" "tileScaleHeight' this = 120"
    using assms by (simp_all add: geometry_def)
  show ?thesis
    by (simp add: calculateGrid'_def pair_grid_search[OF assms] taken_def pair_scales[OF assms]
        pair_gridOptions(2)[OF assms] Let_def g)
qed



subsection \<open>Feasibility and optimality of the result\<close>

text \<open>
  C1: for at least one tile and positive dimensions of the container (and of the tile
  scale, which the data model requires), counted in pixels, the candidate of the two
  ceilings seats all tiles, and \<^verbatim>\<open>calculateGrid_\<close> returns a shape with at least one
  column, at least one row and at least as many cells as tiles.
\<close>

theorem calculateGrid_seats_all_tiles:
  assumes "geometry_ok this"
  shows "feasible this (Math_ceil (gridWidth this), Math_ceil (gridHeight this))
       \<and> (\<exists>c r :: int. gridWidthCells (calculateGrid' this) = Some (Finite (of_int c))
                \<and> gridHeightCells (calculateGrid' this) = Some (Finite (of_int r))
                \<and> 1 \<le> c \<and> 1 \<le> r \<and> numTiles this \<le> c * r)"
proof -
  from grid_search_last_optimal[OF assms] obtain x
    where f: "find (optimal this (gridOptions this)) (rev (gridOptions this)) = Some x"
      and g: "grid_search this = taken this x" by blast
  from find_Some_holds[OF f] have o: "optimal this (gridOptions this) x"
    and m: "x \<in> set (gridOptions this)" by simp_all
  from o have fx: "feasible this x" by (simp add: optimal_def)
  from feasible_candidate[OF assms m fx] obtain c r :: int
    where x: "x = (Finite (of_int c), Finite (of_int r))" and p: "1 \<le> c" "1 \<le> r"
      and n: "numTiles this \<le> c * r" by blast
  have "gridWidthCells (calculateGrid' this) = Some (Finite (of_int c))"
       "gridHeightCells (calculateGrid' this) = Some (Finite (of_int r))"
    by (simp_all add: calculateGrid'_def g taken_def Let_def x)
  then show ?thesis using p n ceil_candidate_feasible[OF assms] by blast
qed

theorem calculateGrid_seats_all_tiles_witness:
  "geometry_ok demo \<and> feasible demo (Finite 3, Finite 2)
   \<and> gridWidthCells (calculateGrid' demo) = Some (Finite 2)
   \<and> gridHeightCells (calculateGrid' demo) = Some (Finite 2)
   \<and> (\<exists>c r :: int. gridWidthCells (calculateGrid' demo) = Some (Finite (of_int c))
            \<and> gridHeightCells (calculateGrid' demo) = Some (Finite (of_int r))
            \<and> 1 \<le> c \<and> 1 \<le> r \<and> numTiles demo \<le> c * r)"
proof -
  have "Math_ceil (gridWidth demo) = Finite 3" "Math_ceil (gridHeight demo) = Finite 2"
    using quad_gridOptions[OF demo_geometry(2)] by (simp_all add: gridOptions_def)
  then show ?thesis
    using calculateGrid_seats_all_tiles[OF demo_geometry(1)] demo_geometry(1)
      quad_calculateGrid(1,2)[OF demo_geometry(2)]
    by simp
qed





section \<open>The controller: selection and scanning\<close>

subsection \<open>The loops that lay out the grid\<close>

lemma increment_exact:
  assumes "0 \<le> k" and "k < 2 ^ 53"
  shows "binary64 (real_of_int k + 1) = Finite (real_of_int k + 1)"
proof -
  have "\<bar>k + 1\<bar> \<le> 2 ^ 53" using assms by simp
  from binary64_of_int[OF this] show ?thesis by simp
qed

text \<open>A counter that reached \<open>2\<^sup>5\<^sup>3\<close> stays there: the next integer is no binary64 value.\<close>

lemma increment_stalls: "binary64 (2 ^ 53 + 1) = Finite (2 ^ 53)"
proof -
  have "binary64 (2 ^ 53 + 1) =
          Finite (of_int (roundTiesToEven ((2 ^ 53 + 1) / 2 powr of_int (53 - 52)))
                    * 2 powr of_int (53 - 52))"
    by (rule binary64_eval) simp_all
  also have "\<dots> = Finite (2 ^ 53)" by (simp add: roundTiesToEven_def)
  finally show ?thesis .
qed

text \<open>A loop whose bound is a finite number of at most \<open>2\<^sup>5\<^sup>3\<close> ends.\<close>

lemma buildGrid_row_returns:
  assumes "b \<le> 2 ^ 53" and "0 \<le> k"
  shows "buildGrid_row (Some (Finite b)) (Finite (real_of_int k)) = Some ()"
  using assms(2)
proof (induction "nat (\<lceil>b\<rceil> - k)" arbitrary: k rule: less_induct)
  case less
  show ?case
  proof (cases "real_of_int k < b")
    case False
    then show ?thesis by (subst buildGrid_row.simps) (simp add: js_less_def)
  next
    case True
    then have "real_of_int k < 2 ^ 53" using assms(1) by linarith
    then have k: "k < 2 ^ 53" by (simp only: of_int_less_numeral_power_cancel_iff)
    have "k < \<lceil>b\<rceil>" using True by (simp add: less_ceiling_iff)
    then have "nat (\<lceil>b\<rceil> - (k + 1)) < nat (\<lceil>b\<rceil> - k)" by simp
    from less.hyps[OF this] less.prems
    have "buildGrid_row (Some (Finite b)) (Finite (real_of_int (k + 1))) = Some ()" by simp
    then show ?thesis
      using True by (subst buildGrid_row.simps)
        (simp add: js_less_def increment_exact[OF less.prems k])
  qed
qed

lemma buildGrid_rows_returns:
  assumes "w \<le> 2 ^ 53" and "h \<le> 2 ^ 53" and "0 \<le> k"
  shows "buildGrid_rows (Some (Finite w)) (Some (Finite h)) (Finite (real_of_int k)) = Some ()"
  using assms(3)
proof (induction "nat (\<lceil>h\<rceil> - k)" arbitrary: k rule: less_induct)
  case less
  have row: "buildGrid_row (Some (Finite w)) (Finite 0) = Some ()"
    using buildGrid_row_returns[OF assms(1), of 0] by simp
  show ?case
  proof (cases "real_of_int k < h")
    case False
    then show ?thesis by (subst buildGrid_rows.simps) (simp add: js_less_def)
  next
    case True
    then have "real_of_int k < 2 ^ 53" using assms(2) by linarith
    then have k: "k < 2 ^ 53" by (simp only: of_int_less_numeral_power_cancel_iff)
    have "k < \<lceil>h\<rceil>" using True by (simp add: less_ceiling_iff)
    then have "nat (\<lceil>h\<rceil> - (k + 1)) < nat (\<lceil>h\<rceil> - k)" by simp
    from less.hyps[OF this] less.prems
    have "buildGrid_rows (Some (Finite w)) (Some (Finite h)) (Finite (real_of_int (k + 1)))
            = Some ()" by simp
    then show ?thesis
      using True by (subst buildGrid_rows.simps)
        (simp add: js_less_def increment_exact[OF less.prems k] row)
  qed
qed

lemma buildGrid_returns:
  assumes "gridWidthCells' this = Some (Finite w)" and "w \<le> 2 ^ 53"
    and "gridHeightCells' this = Some (Finite h)" and "h \<le> 2 ^ 53"
  shows "buildGrid' this =
           Inr (this\<lparr>dom_log := dom_log this
                        @ [BuildGrid (gridWidthCells' this) (gridHeightCells' this)]\<rparr>)"
  using buildGrid_rows_returns[OF assms(2,4), of 0]
  by (simp add: buildGrid'_def assms(1,3))

text \<open>
  A loop whose bound is \<^verbatim>\<open>Infinity\<close> does not end, and a shape of \<^verbatim>\<open>NaN\<close> or
  \<^verbatim>\<open>undefined\<close> lays out no row.
\<close>

lemma buildGrid_rows_partial:
  assumes "buildGrid_rows width height y = Some u"
  shows "\<not> (height = Some PosInf \<and> (\<exists>j. 0 \<le> j \<and> j \<le> 2 ^ 53 \<and> y = Finite (real_of_int j)))"
proof (rule buildGrid_rows.raw_induct[where
      P = "\<lambda>width height y u.
             \<not> (height = Some PosInf \<and> (\<exists>j. 0 \<le> j \<and> j \<le> 2 ^ 53 \<and> y = Finite (real_of_int j)))"
      and width = width and height = height and y = y and ya = u])
  show "buildGrid_rows width height y = Some u" by fact
next
  fix rows :: "number option \<Rightarrow> number option \<Rightarrow> number \<Rightarrow> unit option"
    and w h :: "number option" and c :: number and v :: unit
  assume IH: "\<And>w h c v. rows w h c = Some v \<Longrightarrow>
                \<not> (h = Some PosInf \<and> (\<exists>j. 0 \<le> j \<and> j \<le> 2 ^ 53 \<and> c = Finite (real_of_int j)))"
    and body: "(if js_less c h
                then Option.bind (buildGrid_row w (Finite 0))
                       (\<lambda>u. rows w h (num_add c (Finite 1)))
                else Some ()) = Some v"
  show "\<not> (h = Some PosInf \<and> (\<exists>j. 0 \<le> j \<and> j \<le> 2 ^ 53 \<and> c = Finite (real_of_int j)))"
  proof
    assume a: "h = Some PosInf \<and> (\<exists>j. 0 \<le> j \<and> j \<le> 2 ^ 53 \<and> c = Finite (real_of_int j))"
    then obtain j where j: "0 \<le> j" "j \<le> 2 ^ 53" "c = Finite (real_of_int j)" by blast
    have next_c: "\<exists>i. 0 \<le> i \<and> i \<le> 2 ^ 53 \<and> num_add c (Finite 1) = Finite (real_of_int i)"
    proof (cases "j = 2 ^ 53")
      case True
      then have "num_add c (Finite 1) = Finite (real_of_int (2 ^ 53))"
        using increment_stalls by (simp add: j(3))
      then show ?thesis by (intro exI[of _ "2 ^ 53"]) simp
    next
      case False
      then have "j < 2 ^ 53" using j(2) by simp
      from increment_exact[OF j(1) this]
      have "num_add c (Finite 1) = Finite (real_of_int (j + 1))" by (simp add: j(3))
      then show ?thesis using j \<open>j < 2 ^ 53\<close> by (intro exI[of _ "j + 1"]) simp
    qed
    from body a j obtain v' where "rows w h (num_add c (Finite 1)) = Some v'"
      by (auto simp: js_less_def split: bind_splits)
    from IH[OF this] a next_c show False by blast
  qed
qed

lemma buildGrid_rows_diverges: "buildGrid_rows width (Some PosInf) (Finite 0) = None"
proof (rule ccontr)
  assume "buildGrid_rows width (Some PosInf) (Finite 0) \<noteq> None"
  then obtain u where "buildGrid_rows width (Some PosInf) (Finite 0) = Some u" by auto
  from buildGrid_rows_partial[OF this] show False by (auto dest: spec[of _ 0])
qed

lemma buildGrid_never_returns:
  "gridHeightCells' this = Some PosInf \<Longrightarrow> buildGrid' this = Inl NoReturn"
  by (simp add: buildGrid'_def buildGrid_rows_diverges)

lemma buildGrid_no_row:
  "gridHeightCells' this = None \<or> gridHeightCells' this = Some NaN \<Longrightarrow>
   buildGrid' this =
     Inr (this\<lparr>dom_log := dom_log this
                  @ [BuildGrid (gridWidthCells' this) (gridHeightCells' this)]\<rparr>)"
  by (subst buildGrid'_def, subst buildGrid_rows.simps) (auto simp: js_less_def)


subsection \<open>Steps that keep what the constructor fixed\<close>

lemma moves_toI:
  "result = Inr this' \<Longrightarrow> selected' this' = sel \<Longrightarrow> scanning' this' = scan
   \<Longrightarrow> fixture this' = fixture this \<Longrightarrow> moves_to this sel scan result"
  by (auto simp: moves_to_def)

lemma moves_to_andThen:
  assumes "moves_to this sel scan m"
    and "\<And>this'. selected' this' = sel \<Longrightarrow> scanning' this' = scan
           \<Longrightarrow> fixture this' = fixture this \<Longrightarrow> moves_to this' sel2 scan2 (f this')"
  shows "moves_to this sel2 scan2 (andThen m f)"
proof -
  from assms(1) obtain this' where m: "m = Inr this'" and s: "selected' this' = sel"
    "scanning' this' = scan" "fixture this' = fixture this" by (auto simp: moves_to_def)
  from assms(2)[OF s] s(3) show ?thesis by (auto simp: moves_to_def m andThen_def)
qed

lemma js_index_in: "0 \<le> i \<Longrightarrow> i < int (length xs) \<Longrightarrow> js_index xs i = Some (xs ! nat i)"
  by (simp add: js_index_def)

lemma onCell_moves:
  assumes "0 \<le> i" and "i < int (length (cells' this))"
  shows "moves_to this (selected' this) (scanning' this) (onCell f i this)"
  using assms by (simp add: onCell_def js_index_in moves_to_def fixture_def)

lemma buildImage_moves:
  assumes "0 \<le> i" and "i < int (length (cells' this))"
  shows "moves_to this (selected' this) (scanning' this) (buildImage' i this)"
  using assms by (simp add: buildImage'_def js_index_in moves_to_def fixture_def)

lemma buildImages_from_moves:
  "i + n \<le> length (cells' this) \<Longrightarrow>
   moves_to this (selected' this) (scanning' this) (buildImages_from n i this)"
proof (induction n arbitrary: i this)
  case 0
  then show ?case by (simp add: moves_to_def)
next
  case (Suc n)
  have b: "moves_to this (selected' this) (scanning' this) (buildImage' (int i) this)"
    using Suc.prems by (intro buildImage_moves) simp_all
  show ?case
    unfolding buildImages_from.simps
  proof (rule moves_to_andThen[OF b])
    fix this'
    assume s: "selected' this' = selected' this" "scanning' this' = scanning' this"
      "fixture this' = fixture this"
    then have "Suc i + n \<le> length (cells' this')" using Suc.prems by (simp add: fixture_def)
    from Suc.IH[OF this] s
    show "moves_to this' (selected' this) (scanning' this) (buildImages_from n (Suc i) this')"
      by simp
  qed
qed

lemma buildImages_moves:
  "length (sourceUrls' this) \<le> length (cells' this) \<Longrightarrow>
   moves_to this (selected' this) (scanning' this) (buildImages' this)"
  using buildImages_from_moves[of 0 "length (sourceUrls' this)" this]
  by (simp add: buildImages'_def)

lemma disableScanning_moves:
  assumes "length (sourceUrls' this) \<le> length (cells' this)"
  shows "moves_to this (selected' this) False (disableScanning' this)"
proof (cases "scanning' this")
  case True
  have "moves_to (this\<lparr>scanning' := False\<rparr>) (selected' this) False
          (buildImages' (this\<lparr>scanning' := False\<rparr>))"
    using buildImages_moves[of "this\<lparr>scanning' := False\<rparr>"] assms by simp
  then show ?thesis using True by (simp add: disableScanning'_def moves_to_def fixture_def)
next
  case False
  then show ?thesis by (simp add: disableScanning'_def moves_to_def)
qed

lemma in_cells_fixture: "fixture a = fixture b \<Longrightarrow> in_cells a v = in_cells b v"
  by (auto simp: in_cells_def fixture_def split: option.splits)

lemma selection_in_cells:
  "well_formed this \<Longrightarrow> selection_valid this \<Longrightarrow> in_cells this (selected' this)"
  by (simp add: well_formed_def selection_valid_def in_cells_def numTiles_def split: option.splits)

lemma select_toggle_result:
  assumes "0 \<le> index" and "index < int (length (cells' this))"
    and "in_cells this (selected' this)"
  shows "\<exists>this'. select_toggle index this = Inr (selected' this, this')
           \<and> selected' this' = toggled (selected' this) index
           \<and> scanning' this' = scanning' this \<and> fixture this' = fixture this"
proof (cases "selected' this")
  case None
  then show ?thesis
    using assms by (simp add: select_toggle_def andThen_def onCell_def js_index_in
        toggled_def fixture_def)
next
  case (Some s)
  with assms(3) have s: "0 \<le> s" "s < int (length (cells' this))" by (simp_all add: in_cells_def)
  show ?thesis
  proof (cases "s = index")
    case True
    then show ?thesis
      using assms Some by (simp add: select_toggle_def andThen_def onCell_def js_index_in
          toggled_def fixture_def)
  next
    case False
    then show ?thesis
      using assms Some s by (simp add: select_toggle_def andThen_def onCell_def js_index_in
          toggled_def fixture_def)
  qed
qed

lemma maybe_buildImage_moves:
  assumes "in_cells this v"
  shows "moves_to this (selected' this) (scanning' this)
           (case v of None \<Rightarrow> Inr this | Some i \<Rightarrow> buildImage' i this)"
proof (cases v)
  case None
  then show ?thesis by (simp add: moves_to_def)
next
  case (Some i)
  with assms show ?thesis using buildImage_moves[of i this] by (simp add: in_cells_def)
qed

lemma select_refresh_moves:
  assumes "in_cells this old_index" and "in_cells this (selected' this)"
  shows "moves_to this (selected' this) (scanning' this) (select_refresh old_index this)"
proof (cases "containerImgWidthPx' this \<noteq> imgWidthPx' this
              \<or> containerImgHeightPx' this \<noteq> imgHeightPx' this")
  case False
  then show ?thesis by (simp add: select_refresh_def moves_to_def)
next
  case True
  have "moves_to this (selected' this) (scanning' this)
          (andThen (case old_index of None \<Rightarrow> Inr this | Some i \<Rightarrow> buildImage' i this)
             (\<lambda>this. case selected' this of None \<Rightarrow> Inr this | Some s \<Rightarrow> buildImage' s this))"
  proof (rule moves_to_andThen[OF maybe_buildImage_moves[OF assms(1)]])
    fix this'
    assume s: "selected' this' = selected' this" "scanning' this' = scanning' this"
      "fixture this' = fixture this"
    have "in_cells this' (selected' this')"
      using assms(2) s by (simp add: in_cells_fixture[OF s(3)])
    from maybe_buildImage_moves[OF this] s
    show "moves_to this' (selected' this) (scanning' this)
            (case selected' this' of None \<Rightarrow> Inr this' | Some s \<Rightarrow> buildImage' s this')"
      by simp
  qed
  then show ?thesis using True by (simp add: select_refresh_def)
qed

lemma setSelected_moves:
  assumes "0 \<le> index" and "index < int (length (cells' this))"
    and "in_cells this (selected' this)"
  shows "moves_to this (toggled (selected' this) index) (scanning' this) (setSelected' index this)"
proof -
  from select_toggle_result[OF assms] obtain this'
    where t: "select_toggle index this = Inr (selected' this, this')"
      and s: "selected' this' = toggled (selected' this) index"
        "scanning' this' = scanning' this" "fixture this' = fixture this" by blast
  have o: "in_cells this' (selected' this)" using assms(3) by (simp add: in_cells_fixture[OF s(3)])
  have n: "in_cells this' (selected' this')"
    using assms(1,2) s by (simp add: in_cells_def toggled_def fixture_def)
  from select_refresh_moves[OF o n] s
  show ?thesis by (auto simp: setSelected'_def t andThen_def moves_to_def)
qed

lemma setSelectedNoScan_moves:
  assumes "0 \<le> index" and "index < int (length (cells' this))"
    and "in_cells this (selected' this)" and "length (sourceUrls' this) \<le> length (cells' this)"
  shows "moves_to this (toggled (selected' this) index) False (setSelectedNoScan' index this)"
  unfolding setSelectedNoScan'_def
proof (rule moves_to_andThen[OF setSelected_moves[OF assms(1-3)]])
  fix this'
  assume s: "selected' this' = toggled (selected' this) index" "scanning' this' = scanning' this"
    "fixture this' = fixture this"
  then have "length (sourceUrls' this') \<le> length (cells' this')"
    using assms(4) by (simp add: fixture_def)
  from disableScanning_moves[OF this] s
  show "moves_to this' (toggled (selected' this) index) False (disableScanning' this')" by simp
qed

subsection \<open>The listeners\<close>

lemma js_rem_mod: "0 \<le> a \<Longrightarrow> 0 < b \<Longrightarrow> js_rem a b = a mod b"
  by (cases "a = 0") (simp_all add: js_rem_def)

lemma scanRight_moves:
  assumes "0 < length (cells' this)" and "in_cells this (selected' this)"
  shows "moves_to this
           (toggled (selected' this)
              ((toNumber (selected' this) + 1) mod int (length (cells' this))))
           (scanning' this) (scanRight' this)"
proof -
  let ?n = "int (length (cells' this))"
  have k: "0 \<le> toNumber (selected' this)"
    using assms(2) by (simp add: in_cells_def toNumber_def split: option.splits)
  have n: "0 < ?n" using assms(1) by simp
  have r: "js_rem (toNumber (selected' this) + 1) ?n = (toNumber (selected' this) + 1) mod ?n"
    using k n by (intro js_rem_mod) simp_all
  have "0 \<le> (toNumber (selected' this) + 1) mod ?n" "(toNumber (selected' this) + 1) mod ?n < ?n"
    using n by simp_all
  from setSelected_moves[OF this assms(2)] assms(1) show ?thesis
    by (simp add: scanRight'_def r)
qed

lemma scanLeft_moves:
  assumes "0 < length (cells' this)" and "in_cells this (selected' this)"
  shows "moves_to this
           (toggled (selected' this)
              (if toNumber (selected' this) > 0 then toNumber (selected' this) - 1
               else int (length (cells' this)) - 1))
           (scanning' this) (scanLeft' this)"
proof -
  let ?i = "if toNumber (selected' this) > 0 then toNumber (selected' this) - 1
            else int (length (cells' this)) - 1"
  have "toNumber (selected' this) < int (length (cells' this))"
    using assms by (simp add: in_cells_def toNumber_def split: option.splits)
  then have "0 \<le> ?i" "?i < int (length (cells' this))" using assms(1) by simp_all
  from setSelected_moves[OF this assms(2)] show ?thesis by (simp add: scanLeft'_def)
qed

lemma moves_then_disableScanning:
  assumes "moves_to this sel scan m" and "length (sourceUrls' this) \<le> length (cells' this)"
  shows "moves_to this sel False (andThen m disableScanning')"
proof (rule moves_to_andThen[OF assms(1)])
  fix this'
  assume s: "selected' this' = sel" "scanning' this' = scan" "fixture this' = fixture this"
  then have "length (sourceUrls' this') \<le> length (cells' this')"
    using assms(2) by (simp add: fixture_def)
  from disableScanning_moves[OF this] s
  show "moves_to this' sel False (disableScanning' this')" by simp
qed

lemma toggled_in_cells:
  "0 \<le> i \<Longrightarrow> i < int (length (cells' this)) \<Longrightarrow> in_cells this (toggled sel i)"
  by (simp add: in_cells_def toggled_def)

text \<open>Every listener returns normally and leaves a selection within the cells.\<close>

lemma onKeyPress_digit:
  "fromCharCode charCode \<in> {49, 50, 51, 52, 53, 54, 55, 56, 57, 48} \<Longrightarrow>
   onKeyPress' charCode this =
     (if (if charCode - 49 = -1 then 10 else charCode - 49) < int (length (cells' this))
      then setSelectedNoScan' (if charCode - 49 = -1 then 10 else charCode - 49) this
      else Inr this)"
  unfolding onKeyPress'_def Let_def by (simp only: if_True)

lemma onKeyPress_s:
  "fromCharCode charCode = 115 \<Longrightarrow>
   onKeyPress' charCode this =
     (if scanning' this \<and> selected' this \<noteq> None
      then setSelectedNoScan' (toNumber (selected' this)) this
      else if selected' this = None then setSelected' 0 (this\<lparr>scanning' := True\<rparr>)
      else Inr (this\<lparr>scanning' := True\<rparr>))"
  by (auto simp: onKeyPress'_def Let_def)

lemma onKeyPress_space:
  "fromCharCode charCode = 32 \<Longrightarrow>
   onKeyPress' charCode this = Inr (this\<lparr>scanning' := \<not> scanning' this\<rparr>)"
  by (simp add: onKeyPress'_def Let_def)

lemma onKeyPress_other:
  "fromCharCode charCode \<notin> {49, 50, 51, 52, 53, 54, 55, 56, 57, 48} \<Longrightarrow>
   fromCharCode charCode \<noteq> 115 \<Longrightarrow> fromCharCode charCode \<noteq> 32 \<Longrightarrow>
   onKeyPress' charCode this = Inr this"
  unfolding onKeyPress'_def Let_def by (simp only: if_False)

lemma digit_index_nonneg:
  assumes "0 \<le> charCode" and "fromCharCode charCode \<in> {49, 50, 51, 52, 53, 54, 55, 56, 57, 48}"
  shows "0 \<le> (if charCode - 49 = -1 then 10 else charCode - 49)"
proof -
  have "48 \<le> charCode"
  proof (rule ccontr)
    assume "\<not> 48 \<le> charCode"
    with assms(1) have "charCode mod 65536 = charCode" "charCode < 48" by simp_all
    with assms(2) show False by (simp add: fromCharCode_def)
  qed
  then show ?thesis by simp
qed

text \<open>Every listener returns normally and leaves a selection within the cells.\<close>

lemma onKeyPress_keeps:
  assumes "well_formed this" and "in_cells this (selected' this)" and "0 \<le> charCode"
  shows "\<exists>sel scan. moves_to this sel scan (onKeyPress' charCode this) \<and> in_cells this sel"
proof -
  have len: "length (sourceUrls' this) \<le> length (cells' this)" "0 < length (cells' this)"
    using assms(1) by (auto simp: well_formed_def numTiles_def)
  have same: "moves_to this (selected' this) (scanning' this) (Inr this)"
    by (simp add: moves_to_def)
  consider (digit) "fromCharCode charCode \<in> {49, 50, 51, 52, 53, 54, 55, 56, 57, 48}"
    | (s) "fromCharCode charCode = 115"
    | (space) "fromCharCode charCode = 32"
    | (other) "fromCharCode charCode \<notin> {49, 50, 51, 52, 53, 54, 55, 56, 57, 48}"
          "fromCharCode charCode \<noteq> 115" "fromCharCode charCode \<noteq> 32"
    by blast
  then show ?thesis
  proof cases
    case digit
    let ?index = "if charCode - 49 = -1 then 10 else charCode - 49"
    have nn: "0 \<le> ?index" by (rule digit_index_nonneg[OF assms(3) digit])
    show ?thesis
    proof (cases "?index < int (length (cells' this))")
      case True
      from setSelectedNoScan_moves[OF nn True assms(2) len(1)] toggled_in_cells[OF nn True]
      show ?thesis unfolding onKeyPress_digit[OF digit] using True by (simp only: if_True) blast
    next
      case False
      with same assms(2) show ?thesis
        unfolding onKeyPress_digit[OF digit] by (simp only: if_False) blast
    qed
  next
    case s
    show ?thesis
    proof (cases "selected' this")
      case None
      have "in_cells (this\<lparr>scanning' := True\<rparr>) (selected' (this\<lparr>scanning' := True\<rparr>))"
        using None by (simp add: in_cells_def)
      from setSelected_moves[of 0 "this\<lparr>scanning' := True\<rparr>", OF _ _ this] len(2)
      have "moves_to this (Some 0) True (setSelected' 0 (this\<lparr>scanning' := True\<rparr>))"
        using None by (simp add: moves_to_def toggled_def fixture_def)
      moreover have "in_cells this (Some 0)" using len(2) by (simp add: in_cells_def)
      ultimately show ?thesis using None by (auto simp: onKeyPress_s[OF s])
    next
      case (Some i)
      with assms(2) have i: "0 \<le> i" "i < int (length (cells' this))"
        by (simp_all add: in_cells_def)
      show ?thesis
      proof (cases "scanning' this")
        case True
        from setSelectedNoScan_moves[OF i assms(2) len(1)] toggled_in_cells[OF i]
        show ?thesis using Some True by (auto simp: onKeyPress_s[OF s] toNumber_def)
      next
        case False
        have "moves_to this (selected' this) True (Inr (this\<lparr>scanning' := True\<rparr>))"
          by (simp add: moves_to_def fixture_def)
        with assms(2) show ?thesis
          using Some False by (auto simp: onKeyPress_s[OF s])
      qed
    qed
  next
    case space
    have "moves_to this (selected' this) (\<not> scanning' this)
            (Inr (this\<lparr>scanning' := \<not> scanning' this\<rparr>))"
      by (simp add: moves_to_def fixture_def)
    with assms(2) show ?thesis by (auto simp: onKeyPress_space[OF space])
  next
    case other
    with same assms(2) show ?thesis by (auto simp: onKeyPress_other[OF other])
  qed
qed

lemma mod_in_cells:
  "0 < length (cells' this) \<Longrightarrow> in_cells this (toggled sel (k mod int (length (cells' this))))"
  by (simp add: in_cells_def toggled_def)

lemma left_in_cells:
  assumes "0 < length (cells' this)" and "in_cells this sel"
  shows "in_cells this (toggled sel (if toNumber sel > 0 then toNumber sel - 1
                                      else int (length (cells' this)) - 1))"
  using assms by (auto simp: in_cells_def toggled_def toNumber_def split: option.splits)

lemma onKeyDown_keeps:
  assumes "well_formed this" and "in_cells this (selected' this)"
  shows "\<exists>sel scan. moves_to this sel scan (onKeyDown' keyCode this) \<and> in_cells this sel"
proof -
  have len: "length (sourceUrls' this) \<le> length (cells' this)" "0 < length (cells' this)"
    using assms(1) by (auto simp: well_formed_def numTiles_def)
  have same: "moves_to this (selected' this) (scanning' this) (Inr this)"
    by (simp add: moves_to_def)
  show ?thesis
  proof (cases "selected' this")
    case None
    with same assms(2) show ?thesis by (auto simp: onKeyDown'_def)
  next
    case (Some i)
    with assms(2) have i: "0 \<le> i" "i < int (length (cells' this))"
      by (simp_all add: in_cells_def)
    note esc = setSelectedNoScan_moves[OF i assms(2) len(1)] toggled_in_cells[OF i]
    note left = moves_then_disableScanning[OF scanLeft_moves[OF len(2) assms(2)] len(1)]
      left_in_cells[OF len(2) assms(2)]
    note right = moves_then_disableScanning[OF scanRight_moves[OF len(2) assms(2)] len(1)]
      mod_in_cells[OF len(2)]
    consider "keyCode = 27" | "keyCode = 37" | "keyCode = 39"
      | "keyCode \<noteq> 27" "keyCode \<noteq> 37" "keyCode \<noteq> 39" by blast
    then show ?thesis
    proof cases
      case 1
      with esc show ?thesis using Some by (auto simp: onKeyDown'_def)
    next
      case 2
      with left show ?thesis using Some by (simp add: onKeyDown'_def) blast
    next
      case 3
      with right show ?thesis using Some by (simp add: onKeyDown'_def) blast
    next
      case 4
      with same assms(2) show ?thesis by (auto simp: onKeyDown'_def)
    qed
  qed
qed

lemma onScanTimer_keeps:
  assumes "well_formed this" and "in_cells this (selected' this)"
  shows "\<exists>sel scan. moves_to this sel scan (onScanTimer' this) \<and> in_cells this sel"
proof -
  have len: "0 < length (cells' this)"
    using assms(1) by (auto simp: well_formed_def numTiles_def)
  have same: "moves_to this (selected' this) (scanning' this) (Inr this)"
    by (simp add: moves_to_def)
  show ?thesis
  proof (cases "\<not> scanning' this \<or> selected' this = None")
    case True
    with same assms(2) show ?thesis by (auto simp: onScanTimer'_def)
  next
    case False
    then have eq: "onScanTimer' this = scanRight' this" by (auto simp: onScanTimer'_def)
    from scanRight_moves[OF len assms(2)] mod_in_cells[OF len] show ?thesis
      unfolding eq by blast
  qed
qed

lemma onClick_keeps:
  assumes "in_cells this (selected' this)" and "0 \<le> index" and "index < int (length (cells' this))"
  shows "\<exists>sel scan. moves_to this sel scan (onClick' index this) \<and> in_cells this sel"
  using setSelected_moves[OF assms(2,3,1)] toggled_in_cells[OF assms(2,3)]
  by (simp add: onClick'_def) blast

text \<open>The recompute pass keeps the selection and the scanning flag.\<close>

lemma rebuild_constraint_same:
  "selected' (rebuild_constraint g this) = selected' this"
  "scanning' (rebuild_constraint g this) = scanning' this"
  "fixture (rebuild_constraint g this) = fixture this"
  by (simp_all add: rebuild_constraint_def setUpscaleRule'_def fixture_def)

lemma rebuild_containerConstraint_same:
  "selected' (rebuild_containerConstraint g this) = selected' this"
  "scanning' (rebuild_containerConstraint g this) = scanning' this"
  "fixture (rebuild_containerConstraint g this) = fixture this"
  by (simp_all add: rebuild_containerConstraint_def setUpscaleRule'_def fixture_def)

lemma rebuild_grid_moves:
  assumes "gridWidthCells g = Some (Finite w)" and "w \<le> 2 ^ 53"
    and "gridHeightCells g = Some (Finite h)" and "h \<le> 2 ^ 53"
  shows "moves_to this (selected' this) (scanning' this) (rebuild_grid g this)"
proof -
  let ?t = "this\<lparr>gridWidthCells' := gridWidthCells g, gridHeightCells' := gridHeightCells g\<rparr>"
  have "buildGrid' ?t =
          Inr (?t\<lparr>dom_log := dom_log ?t
                      @ [BuildGrid (gridWidthCells' ?t) (gridHeightCells' ?t)]\<rparr>)"
    using assms by (intro buildGrid_returns[of ?t w h]) simp_all
  then show ?thesis by (simp add: rebuild_grid_def moves_to_def fixture_def)
qed

lemma rebuild_resolution_moves:
  assumes "length (sourceUrls' this) \<le> length (cells' this)"
  shows "moves_to this (selected' this) (scanning' this) (rebuild_resolution r this)"
proof -
  let ?t = "this\<lparr>imgWidthPx' := Some (imgWidthPx r), imgHeightPx' := Some (imgHeightPx r)\<rparr>"
  have "moves_to ?t (selected' ?t) (scanning' ?t) (buildImages' ?t)"
    using assms by (intro buildImages_moves) simp
  then have "moves_to this (selected' this) (scanning' this) (buildImages' ?t)"
    by (simp add: moves_to_def fixture_def)
  then show ?thesis by (simp add: rebuild_resolution_def moves_to_def)
qed

lemma rebuild_containerResolution_moves:
  assumes "in_cells this (selected' this)"
  shows "moves_to this (selected' this) (scanning' this) (rebuild_containerResolution r this)"
proof -
  let ?t = "this\<lparr>containerImgWidthPx' := Some (imgWidthPx r),
                  containerImgHeightPx' := Some (imgHeightPx r)\<rparr>"
  have "in_cells ?t (selected' ?t)"
    using assms by (auto simp: in_cells_def split: option.splits)
  from maybe_buildImage_moves[OF this]
  have "moves_to this (selected' this) (scanning' this)
          (case selected' ?t of None \<Rightarrow> Inr ?t | Some s \<Rightarrow> buildImage' s ?t)"
    by (simp add: moves_to_def fixture_def)
  then show ?thesis by (simp add: rebuild_containerResolution_def moves_to_def Let_def)
qed

lemma rebuildIfNeeded_moves:
  assumes "well_formed this" and "in_cells this (selected' this)" and "geometry_ok this"
  shows "moves_to this (selected' this) (scanning' this) (rebuildIfNeeded' this)"
proof -
  let ?g = "calculateGrid' this"
  let ?t = "rebuild_containerConstraint ?g (rebuild_constraint ?g this)"
  have ne: "resolutions' this \<noteq> []" and len: "length (sourceUrls' this) \<le> length (cells' this)"
    using assms(1) by (simp_all add: well_formed_def)
  obtain r where r: "findMinimumResolution_num this (cellWidthPx ?g) (cellHeightPx ?g) = Some r"
    using findMinimumResolution_num_Some[OF ne] by blast
  obtain cr where cr: "findMinimumResolution_num this (Finite (offsetWidth this))
                         (Finite (offsetHeight this)) = Some cr"
    using findMinimumResolution_num_Some[OF ne] by blast
  from calculateGrid_shape[OF assms(3)] obtain c r' :: int
    where shape: "gridWidthCells ?g = Some (Finite (of_int c))"
      "gridHeightCells ?g = Some (Finite (of_int r'))" and b: "c \<le> 2 ^ 50" "r' \<le> 2 ^ 50"
    by blast
  have small: "real_of_int c \<le> 2 ^ 53" "real_of_int r' \<le> 2 ^ 53"
  proof -
    have "c \<le> 2 ^ 53" "r' \<le> 2 ^ 53" using b by simp_all
    then show "real_of_int c \<le> 2 ^ 53" "real_of_int r' \<le> 2 ^ 53"
      by (simp_all only: of_int_le_numeral_power_cancel_iff)
  qed
  have t: "selected' ?t = selected' this" "scanning' ?t = scanning' this" "fixture ?t = fixture this"
    by (simp_all add: rebuild_constraint_same rebuild_containerConstraint_same)
  have lt: "length (sourceUrls' ?t) \<le> length (cells' ?t)"
    using len t(3) by (simp add: fixture_def)
  have "moves_to ?t (selected' this) (scanning' this)
          (andThen (rebuild_resolution r ?t)
             (\<lambda>this. andThen (rebuild_containerResolution cr this) (rebuild_grid ?g)))"
  proof (rule moves_to_andThen)
    show "moves_to ?t (selected' this) (scanning' this) (rebuild_resolution r ?t)"
      using rebuild_resolution_moves[OF lt] t by simp
  next
    fix t1
    assume s1: "selected' t1 = selected' this" "scanning' t1 = scanning' this"
      "fixture t1 = fixture ?t"
    have i1: "in_cells t1 (selected' t1)"
      using assms(2) s1 t(3) by (simp add: in_cells_fixture[of t1 this])
    show "moves_to t1 (selected' this) (scanning' this)
            (andThen (rebuild_containerResolution cr t1) (rebuild_grid ?g))"
    proof (rule moves_to_andThen)
      show "moves_to t1 (selected' this) (scanning' this) (rebuild_containerResolution cr t1)"
        using rebuild_containerResolution_moves[OF i1] s1 by simp
    next
      fix t2
      assume "selected' t2 = selected' this" "scanning' t2 = scanning' this"
        "fixture t2 = fixture t1"
      then show "moves_to t2 (selected' this) (scanning' this) (rebuild_grid ?g t2)"
        using rebuild_grid_moves[OF shape(1) small(1) shape(2) small(2), of t2] by simp
    qed
  qed
  then have "moves_to this (selected' this) (scanning' this)
          (andThen (rebuild_resolution r ?t)
             (\<lambda>this. andThen (rebuild_containerResolution cr this) (rebuild_grid ?g)))"
    using t(3) by (simp add: moves_to_def)
  then show ?thesis by (simp add: rebuildIfNeeded'_def Let_def r cr)
qed

lemma onResize_keeps:
  assumes "well_formed this" and "in_cells this (selected' this)" and "scale_ok this"
    and "pixels w" and "pixels h"
  shows "\<exists>sel scan. moves_to this sel scan (onResize' w h this) \<and> in_cells this sel"
proof -
  let ?t = "this\<lparr>offsetWidth := w, offsetHeight := h\<rparr>"
  have "well_formed ?t" "in_cells ?t (selected' ?t)"
    using assms(1,2) by (auto simp: well_formed_def in_cells_def numTiles_def split: option.splits)
  moreover have "geometry_ok ?t"
    using assms(1,3,4,5) by (simp add: geometry_ok_def scale_ok_def well_formed_def numTiles_def)
  ultimately have "moves_to ?t (selected' ?t) (scanning' ?t) (rebuildIfNeeded' ?t)"
    by (rule rebuildIfNeeded_moves)
  then have "moves_to this (selected' this) (scanning' this) (rebuildIfNeeded' ?t)"
    by (simp add: moves_to_def fixture_def)
  with assms(2) show ?thesis by (auto simp: onResize'_def)
qed

subsection \<open>The invariant of the selection\<close>

lemma moves_keeps_invariant:
  assumes "well_formed this" and "moves_to this sel scan result" and "in_cells this sel"
  shows "\<exists>this'. result = Inr this' \<and> well_formed this' \<and> selection_valid this'"
proof -
  from assms(2) obtain this' where r: "result = Inr this'" and s: "selected' this' = sel"
    and f: "fixture this' = fixture this" by (auto simp: moves_to_def)
  have "well_formed this'" using assms(1) f by (simp add: well_formed_def fixture_def numTiles_def)
  moreover have "selection_valid this'"
    using assms(1,3) f s
    by (auto simp: selection_valid_def in_cells_def well_formed_def fixture_def numTiles_def
        split: option.splits)
  ultimately show ?thesis using r by simp
qed

lemma fixture_scale_ok: "fixture a = fixture b \<Longrightarrow> scale_ok a = scale_ok b"
  by (simp add: fixture_def scale_ok_def numTiles_def)

lemma fire_keeps:
  assumes "well_formed this" and "selection_valid this" and "scale_ok this"
    and "deliverable this e"
  shows "\<exists>sel scan. moves_to this sel scan (fire e this) \<and> in_cells this sel"
proof -
  note i = selection_in_cells[OF assms(1,2)]
  show ?thesis
  proof (cases e)
    case (KeyPress c)
    with assms(4) onKeyPress_keeps[OF assms(1) i, of c] show ?thesis by simp
  next
    case (KeyDown k)
    with onKeyDown_keeps[OF assms(1) i, of k] show ?thesis by simp
  next
    case (Click x)
    with assms(4) onClick_keeps[OF i, of x] show ?thesis by simp
  next
    case ScanTimer
    with onScanTimer_keeps[OF assms(1) i] show ?thesis by simp
  next
    case (Resize w h)
    with assms(4) onResize_keeps[OF assms(1) i assms(3), of w h] show ?thesis by simp
  qed
qed

lemma new_CameraGrid_moves:
  assumes "sourceUrls \<noteq> []" and "int (length sourceUrls) < 2 ^ 32"
    and "catalog_of resolutions \<noteq> []"
    and "pixels (fst (hd (catalog_of resolutions)))"
    and "pixels (snd (hd (catalog_of resolutions)))"
    and "pixels w" and "pixels h"
  shows "\<exists>this. new_CameraGrid w h sourceUrls resolutions getUrl = Inr this
           \<and> selected' this = None \<and> \<not> scanning' this
           \<and> well_formed this \<and> scale_ok this \<and> selection_valid this
           \<and> sourceUrls' this = sourceUrls
           \<and> resolutions' this = catalog_of resolutions"
proof -
  let ?rs = "catalog_of resolutions"
  have ne: "?rs \<noteq> []" by fact
  then have r0: "js_index ?rs 0 = Some (?rs ! 0)" by (simp add: js_index_def)
  have hd: "?rs ! 0 = hd ?rs" using ne by (simp add: hd_conv_nth)
  let ?init = "buildCells'
            \<lparr>offsetWidth = w, offsetHeight = h,
             sourceUrls' = sourceUrls, resolutions' = ?rs, getUrl' = getUrl,
             tileScaleWidth' = fst (?rs ! 0), tileScaleHeight' = snd (?rs ! 0),
             gridWidthCells' = Some (Finite 0), gridHeightCells' = Some (Finite 0),
             imgWidthPx' = Some 0, imgHeightPx' = Some 0, constraint' = None,
             containerImgWidthPx' = Some 0, ctonainerImgHeightPx' = Some 0,
             containerImgHeightPx' = None, containerConstraint' = None,
             selected' = None, scanning' = False, cells' = [], dom_log = []\<rparr>"
  have n: "new_CameraGrid w h sourceUrls resolutions getUrl = rebuildIfNeeded' ?init"
    by (simp add: new_CameraGrid_def Let_def r0)
  have wf: "well_formed ?init"
    using assms(1) ne by (simp add: well_formed_def buildCells'_def numTiles_def Suc_le_eq)
  have so: "scale_ok ?init"
    using assms(2,4,5) by (simp add: scale_ok_def buildCells'_def numTiles_def hd)
  have geo: "geometry_ok ?init"
    using so assms(1,6,7)
    by (simp add: geometry_ok_def scale_ok_def buildCells'_def numTiles_def Suc_le_eq)
  have sel: "selected' ?init = None" "scanning' ?init = False"
    "sourceUrls' ?init = sourceUrls" "resolutions' ?init = ?rs"
    by (simp_all add: buildCells'_def)
  have ic: "in_cells ?init (selected' ?init)" by (simp add: sel in_cells_def)
  from rebuildIfNeeded_moves[OF wf ic geo] obtain this
    where t: "rebuildIfNeeded' ?init = Inr this" "selected' this = None" "scanning' this = False"
      "fixture this = fixture ?init"
    unfolding sel moves_to_def by blast
  have "in_cells ?init None" by (simp add: in_cells_def)
  from moves_keeps_invariant[OF wf _ this, of False "rebuildIfNeeded' ?init"] t
  have "well_formed this \<and> selection_valid this" by (auto simp: moves_to_def)
  moreover have "scale_ok this" using so fixture_scale_ok[OF t(4)] by simp
  moreover have "sourceUrls' this = sourceUrls" "resolutions' this = ?rs"
    using t(4) sel by (simp_all add: fixture_def)
  ultimately show ?thesis using t n by simp
qed

text \<open>
  C9: for a controller with at least one tile, a catalog whose first entry, the tile scale,
  is a positive resolution, and a container of positive width and height, in pixels, the
  constructor returns a state with nothing selected and the scan off, in which the selected
  index, if present, is that of a tile; and every listener (a key press of any character, a
  key down of any key, a click on a tile, a tick of the scan timer, a recompute pass after
  a resize to a positive width and height) returns normally from a state that satisfies
  the invariant to a state that satisfies it, with the same tiles.
\<close>

theorem selection_invariant:
  "(sourceUrls \<noteq> [] \<and> int (length sourceUrls) < 2 ^ 32
      \<and> catalog_of resolutions \<noteq> []
      \<and> pixels (fst (hd (catalog_of resolutions))) \<and> pixels (snd (hd (catalog_of resolutions)))
      \<and> pixels w \<and> pixels h \<longrightarrow>
      (\<exists>this. new_CameraGrid w h sourceUrls resolutions getUrl = Inr this
         \<and> selected' this = None \<and> \<not> scanning' this
         \<and> numTiles this = int (length sourceUrls)
         \<and> well_formed this \<and> scale_ok this \<and> selection_valid this))
   \<and> (well_formed this \<and> scale_ok this \<and> selection_valid this \<and> deliverable this e \<longrightarrow>
      (\<exists>this'. fire e this = Inr this' \<and> numTiles this' = numTiles this
         \<and> well_formed this' \<and> scale_ok this' \<and> selection_valid this'))"
proof (intro conjI impI)
  assume "sourceUrls \<noteq> [] \<and> int (length sourceUrls) < 2 ^ 32
      \<and> catalog_of resolutions \<noteq> []
      \<and> pixels (fst (hd (catalog_of resolutions))) \<and> pixels (snd (hd (catalog_of resolutions)))
      \<and> pixels w \<and> pixels h"
  then show "\<exists>this. new_CameraGrid w h sourceUrls resolutions getUrl = Inr this
         \<and> selected' this = None \<and> \<not> scanning' this
         \<and> numTiles this = int (length sourceUrls)
         \<and> well_formed this \<and> scale_ok this \<and> selection_valid this"
    using new_CameraGrid_moves[of sourceUrls resolutions w h getUrl]
    by (auto simp: numTiles_def)
next
  assume a: "well_formed this \<and> scale_ok this \<and> selection_valid this \<and> deliverable this e"
  then obtain sel scan where m: "moves_to this sel scan (fire e this)" and i: "in_cells this sel"
    using fire_keeps[of this e] by blast
  from m obtain this' where r: "fire e this = Inr this'" and f: "fixture this' = fixture this"
    by (auto simp: moves_to_def)
  from moves_keeps_invariant[OF _ m i] a r
  have "well_formed this' \<and> selection_valid this'" by auto
  moreover have "scale_ok this'" using a fixture_scale_ok[OF f] by simp
  moreover have "numTiles this' = numTiles this" using f by (simp add: fixture_def numTiles_def)
  ultimately show "\<exists>this'. fire e this = Inr this' \<and> numTiles this' = numTiles this
         \<and> well_formed this' \<and> scale_ok this' \<and> selection_valid this'"
    using r by blast
qed

lemma demo_well_formed: "well_formed demo" "selection_valid demo"
  by (simp_all add: well_formed_def selection_valid_def demo_def demo_urls_def numTiles_def
      defaultResolutions'_def)

lemma demo_scale_ok: "scale_ok demo"
  using demo_geometry(1) by (simp add: geometry_ok_def)

theorem selection_invariant_witness:
  "demo_urls \<noteq> [] \<and> pixels 700 \<and> pixels 500 \<and> pixels 1000
   \<and> (\<exists>this. new_CameraGrid 700 500 demo_urls None demo_getUrl = Inr this
          \<and> selected' this = None \<and> \<not> scanning' this \<and> numTiles this = 4
          \<and> selection_valid this)
   \<and> well_formed demo \<and> scale_ok demo \<and> selection_valid demo
   \<and> (\<exists>this'. fire (KeyPress 51) demo = Inr this' \<and> numTiles this' = 4
          \<and> selection_valid this')
   \<and> (\<exists>this'. fire (Resize 1000 700) demo = Inr this' \<and> numTiles this' = 4
          \<and> selection_valid this')"
proof -
  have u: "demo_urls \<noteq> []" "int (length demo_urls) = 4" by (simp_all add: demo_urls_def)
  have n: "numTiles demo = 4" by (simp add: numTiles_def demo_def demo_urls_def)
  have c: "catalog_of None \<noteq> []" "pixels (fst (hd (catalog_of None)))"
    "pixels (snd (hd (catalog_of None)))"
    by (simp_all add: catalog_of_def defaultResolutions'_def pixels_def)
  have p: "pixels 700" "pixels 500" "pixels 1000" by (simp_all add: pixels_def)
  show ?thesis
    using selection_invariant[where sourceUrls = demo_urls and resolutions = None
        and w = 700 and h = 500 and getUrl = demo_getUrl and this = demo and e = "KeyPress 51"]
      selection_invariant[where sourceUrls = demo_urls and resolutions = None
        and w = 700 and h = 500 and getUrl = demo_getUrl and this = demo
        and e = "Resize 1000 700"]
      demo_well_formed demo_scale_ok u n c p
    by auto
qed

text \<open>The single feed under scan.\<close>

lemma solo_well_formed: "well_formed solo_demo" "selection_valid solo_demo"
  by (simp_all add: well_formed_def selection_valid_def solo_demo_def numTiles_def
      defaultResolutions'_def)

lemma solo_scanRight:
  "scanRight' solo_demo =
     Inr (solo_demo\<lparr>selected' := None,
            cells' := [\<lparr>className = [], imgs = [''cam0/mjpg/video.mjpg?resolution=640x480'']\<rparr>]\<rparr>)"
  by (simp add: scanRight'_def solo_demo_def toNumber_def js_rem_def setSelected'_def
      select_toggle_def select_refresh_def andThen_def onCell_def js_index_def
      removeCSSClass'_def)

subsection \<open>The scan step\<close>

text \<open>
  With at least two tiles the tick of the timer does what the scan step is specified to
  do: nothing unless the scan is on and a tile is selected, else the selection moves to the
  next tile, circularly.
\<close>

lemma onScanTimer_advances:
  assumes "well_formed this" and "selection_valid this"
  shows "(\<not> (scanning' this \<and> selected' this \<noteq> None) \<longrightarrow> onScanTimer' this = Inr this)
       \<and> (scanning' this \<and> selected' this = Some i \<and> 2 \<le> numTiles this \<longrightarrow>
            (\<exists>this'. onScanTimer' this = Inr this'
               \<and> selected' this' = Some ((i + 1) mod numTiles this) \<and> scanning' this'))"
proof (intro conjI impI)
  assume "\<not> (scanning' this \<and> selected' this \<noteq> None)"
  then show "onScanTimer' this = Inr this" by (auto simp: onScanTimer'_def)
next
  assume a: "scanning' this \<and> selected' this = Some i \<and> 2 \<le> numTiles this"
  have len: "0 < length (cells' this)" "int (length (cells' this)) = numTiles this"
    using assms(1) by (auto simp: well_formed_def numTiles_def)
  from a assms(2) have i: "0 \<le> i" "i < numTiles this" by (simp_all add: selection_valid_def)
  have ne: "(i + 1) mod numTiles this \<noteq> i"
  proof (cases "i + 1 < numTiles this")
    case True
    with i show ?thesis by simp
  next
    case False
    with i have "i + 1 = numTiles this" by simp
    then have "(i + 1) mod numTiles this = 0" "i = numTiles this - 1" by simp_all
    with a show ?thesis by simp
  qed
  have eq: "onScanTimer' this = scanRight' this" using a by (auto simp: onScanTimer'_def)
  from scanRight_moves[OF len(1) selection_in_cells[OF assms]] a ne len(2)
  show "\<exists>this'. onScanTimer' this = Inr this'
          \<and> selected' this' = Some ((i + 1) mod numTiles this) \<and> scanning' this'"
    unfolding eq by (auto simp: moves_to_def toggled_def toNumber_def)
qed

text \<open>
  C6, at a single tile: the scan is on and tile 0 is selected; the next index is
  (0 + 1) mod 1 = 0, the selected one, and \<^verbatim>\<open>setSelected_\<close> on the selected index clears
  the selection. The tick leaves nothing selected where the claim has tile 0.
\<close>

theorem onScanTimer_single_tile:
  "scanning' solo_demo \<and> selected' solo_demo = Some 0 \<and> numTiles solo_demo = 1
   \<and> (\<exists>this'. onScanTimer' solo_demo = Inr this' \<and> selected' this' = None)"
proof -
  have "onScanTimer' solo_demo = scanRight' solo_demo"
    by (simp add: onScanTimer'_def solo_demo_def)
  then show ?thesis
    by (simp add: solo_scanRight) (simp add: solo_demo_def numTiles_def)
qed

theorem onScanTimer_single_tile_witness:
  "onScanTimer' solo_demo \<noteq> Inr solo_demo \<and> (0 + 1) mod numTiles solo_demo = 0"
  using onScanTimer_single_tile by auto

subsection \<open>Scanning to the next and to the previous tile\<close>

text \<open>
  From any selected tile, \<^verbatim>\<open>scanRight_\<close> then \<^verbatim>\<open>scanLeft_\<close> returns to it, for any number
  of tiles. With a single tile the first step clears the selection and the second selects
  the tile again.
\<close>

lemma scanRight_scanLeft_roundtrip:
  assumes "well_formed this" and "selection_valid this" and "selected' this = Some i"
  shows "\<exists>this1 this2. scanRight' this = Inr this1 \<and> scanLeft' this1 = Inr this2
           \<and> selected' this2 = Some i"
proof -
  let ?n = "int (length (cells' this))"
  have len: "0 < length (cells' this)" "?n = numTiles this"
    using assms(1) by (auto simp: well_formed_def numTiles_def)
  from assms(2,3) len have i: "0 \<le> i" "i < ?n" by (simp_all add: selection_valid_def)
  let ?j = "(i + 1) mod ?n"
  from scanRight_moves[OF len(1) selection_in_cells[OF assms(1,2)]] obtain this1
    where r: "scanRight' this = Inr this1" and s1: "selected' this1 = toggled (Some i) ?j"
      and f1: "fixture this1 = fixture this"
    by (auto simp: moves_to_def assms(3) toNumber_def)
  have l1: "0 < length (cells' this1)" "int (length (cells' this1)) = ?n"
    using len f1 by (simp_all add: fixture_def)
  have ic: "in_cells this1 (selected' this1)"
    using mod_in_cells[OF len(1), of "Some i" "i + 1"] s1
    by (simp add: in_cells_fixture[OF f1])
  let ?k = "if toNumber (selected' this1) > 0 then toNumber (selected' this1) - 1 else ?n - 1"
  from scanLeft_moves[OF l1(1) ic] obtain this2
    where l: "scanLeft' this1 = Inr this2" and s2: "selected' this2 = toggled (selected' this1) ?k"
    by (auto simp: moves_to_def l1(2))
  have "toggled (selected' this1) ?k = Some i"
  proof (cases "i + 1 < ?n")
    case True
    then have "?j = i + 1" using i by simp
    then show ?thesis using i by (simp add: s1 toggled_def toNumber_def)
  next
    case False
    with i have e: "i + 1 = ?n" by simp
    then have j: "?j = 0" by simp
    show ?thesis
    proof (cases "i = 0")
      case True
      then show ?thesis using e j by (simp add: s1 toggled_def toNumber_def)
    next
      case False
      then show ?thesis using e j i by (auto simp: s1 toggled_def toNumber_def)
    qed
  qed
  with r l s2 show ?thesis by simp
qed

text \<open>
  C7, at a single tile under scan: the advance to the next tile clears the selection, so the
  selection does not stay on tile 0.
\<close>

theorem scanRight_single_tile:
  "numTiles solo_demo = 1 \<and> scanning' solo_demo \<and> selected' solo_demo = Some 0
   \<and> (\<exists>this'. scanRight' solo_demo = Inr this' \<and> selected' this' = None
          \<and> onScanTimer' this' = Inr this')"
  by (simp add: solo_scanRight onScanTimer'_def) (simp add: solo_demo_def numTiles_def)

theorem scanRight_single_tile_witness:
  "scanRight' solo_demo \<noteq> Inr solo_demo"
  using scanRight_single_tile by auto

subsection \<open>The scenarios are states that the constructor and the listeners reach\<close>

lemma demo_findMinimumResolution:
  "resolutions' this = defaultResolutions' \<Longrightarrow>
   findMinimumResolution' this 700 500 = Some \<lparr>imgWidthPx = 800, imgHeightPx = 600\<rparr>"
  "resolutions' this = defaultResolutions' \<Longrightarrow>
   findMinimumResolution' this 1000 700 = Some \<lparr>imgWidthPx = 1024, imgHeightPx = 768\<rparr>"
  "resolutions' this = defaultResolutions' \<Longrightarrow>
   findMinimumResolution' this 640 480 = Some \<lparr>imgWidthPx = 640, imgHeightPx = 480\<rparr>"
  "resolutions' this = defaultResolutions' \<Longrightarrow>
   findMinimumResolution' this 320 240 = Some \<lparr>imgWidthPx = 320, imgHeightPx = 240\<rparr>"
  by (simp_all add: findMinimumResolution_first firstReaching_def reaches_def
      defaultResolutions'_def as_resolution_def)

text \<open>A cell between 320 and 480 pixels wide and more than 240 pixels high is served 480 by 360.\<close>

lemma default_resolution_480:
  assumes "resolutions' this = defaultResolutions'"
    and "between lw hw w" and "between lh hh h" and "320 < lw" and "hw \<le> 480" and "240 < lh"
  shows "findMinimumResolution_num this w h = Some \<lparr>imgWidthPx = 480, imgHeightPx = 360\<rparr>"
proof -
  from assms(2,4,5) obtain x where x: "w = Finite x" "320 < x" "x \<le> 480"
    by (auto simp: between_def)
  from assms(3,6) obtain y where y: "h = Finite y" "240 < y" by (auto simp: between_def)
  show ?thesis
    using x(2,3) y(2)
    by (simp add: x(1) y(1) findMinimumResolution_num_Finite findMinimumResolution_first
        firstReaching_def reaches_def assms(1) defaultResolutions'_def as_resolution_def)
qed

lemma buildGrid_rows_from_0:
  "w \<le> 2 ^ 53 \<Longrightarrow> h \<le> 2 ^ 53 \<Longrightarrow>
   buildGrid_rows (Some (Finite w)) (Some (Finite h)) (Finite 0) = Some ()"
  using buildGrid_rows_returns[of w h 0] by simp

lemmas pass_defs =
  rebuild_constraint_def rebuild_containerConstraint_def rebuild_resolution_def
  rebuild_containerResolution_def rebuild_grid_def setUpscaleRule'_def buildGrid'_def
  buildGrid_rows_from_0 buildImages'_def buildImage'_def imgUrl_def andThen_def js_index_def
  js_ne_def demo_getUrl_def demo_px_def

lemma new_CameraGrid_demo: "new_CameraGrid 700 500 demo_urls None demo_getUrl = Inr demo"
proof -
  let ?init = "buildCells'
            \<lparr>offsetWidth = 700, offsetHeight = 500,
             sourceUrls' = demo_urls, resolutions' = defaultResolutions', getUrl' = demo_getUrl,
             tileScaleWidth' = 160, tileScaleHeight' = 120,
             gridWidthCells' = Some (Finite 0), gridHeightCells' = Some (Finite 0),
             imgWidthPx' = Some 0, imgHeightPx' = Some 0, constraint' = None,
             containerImgWidthPx' = Some 0, ctonainerImgHeightPx' = Some 0,
             containerImgHeightPx' = None, containerConstraint' = None,
             selected' = None, scanning' = False, cells' = [], dom_log = []\<rparr>"
  have n: "new_CameraGrid 700 500 demo_urls None demo_getUrl = rebuildIfNeeded' ?init"
    by (simp add: new_CameraGrid_def catalog_of_def Let_def js_index_def defaultResolutions'_def)
  have geo: "geometry ?init = (700, 500, 160, 120, 4)"
    by (simp add: geometry_def buildCells'_def numTiles_def demo_urls_def)
  note g = quad_calculateGrid[OF geo]
  have r: "resolutions' ?init = defaultResolutions'" by (simp add: buildCells'_def)
  have c1: "findMinimumResolution_num ?init (cellWidthPx (calculateGrid' ?init))
              (cellHeightPx (calculateGrid' ?init)) = Some \<lparr>imgWidthPx = 480, imgHeightPx = 360\<rparr>"
    by (rule default_resolution_480[OF r g(5,6)]) simp_all
  have c2: "findMinimumResolution_num ?init (Finite (offsetWidth ?init))
              (Finite (offsetHeight ?init)) = Some \<lparr>imgWidthPx = 800, imgHeightPx = 600\<rparr>"
    using demo_findMinimumResolution(1)[OF r]
    by (simp add: buildCells'_def findMinimumResolution_num_Finite)
  have "rebuildIfNeeded' ?init =
          andThen (rebuild_resolution \<lparr>imgWidthPx = 480, imgHeightPx = 360\<rparr>
                     (rebuild_containerConstraint (calculateGrid' ?init)
                        (rebuild_constraint (calculateGrid' ?init) ?init)))
            (\<lambda>this. andThen (rebuild_containerResolution \<lparr>imgWidthPx = 800, imgHeightPx = 600\<rparr> this)
                      (rebuild_grid (calculateGrid' ?init)))"
    by (simp only: rebuildIfNeeded'_def Let_def c1 c2 option.case)
  also have "\<dots> = Inr demo"
    by (simp add: buildCells'_def demo_urls_def pass_defs quad_calculateGrid(1-4) geometry_def
        numTiles_def demo_def demo_cell_def eval_nat_numeral)
  finally have "rebuildIfNeeded' ?init = Inr demo" .
  with n show ?thesis by simp
qed

lemma solo_calculateGrid:
  assumes "geometry this = (640, 480, 160, 120, 1)"
  shows "calculateGrid' this =
     \<lparr>gridWidthCells = Some (Finite 1), gridHeightCells = Some (Finite 1),
      constraint = Some Height, containerConstraint = Height,
      cellWidthPx = Finite 640, cellHeightPx = Finite 480\<rparr>"
proof -
  have g: "offsetWidth this = 640" "offsetHeight this = 480" "tileScaleWidth' this = 160"
    "tileScaleHeight' this = 120" "numTiles this = 1"
    using assms by (simp_all add: geometry_def)
  have s: "scaleFactor this = Finite 1" by (simp add: scaleFactor_def g)
  have o: "gridOptions this = [(Finite 1, Finite 1), (Finite 1, Finite 1), (Finite 1, Finite 1)]"
    by (simp add: gridOptions_def gridWidth_def gridHeight_def s g)
  have c: "scale this (Finite 1, Finite 1) = Finite 4"
    "constraint_of this (Finite 1, Finite 1) = Height" "numCells (Finite 1, Finite 1) = Finite 1"
    by (simp_all add: scale_def constraint_of_def widthScale_def heightScale_def numCells_def g)
  have "grid_search this = taken this (Finite 1, Finite 1)"
    by (simp add: grid_search_def o grid_step_cases feasible_def g grid_init_def c)
  then show ?thesis by (simp add: calculateGrid'_def taken_def c s g Let_def)
qed

lemma solo_reachable:
  "\<exists>this. new_CameraGrid 640 480 [''cam0/''] None demo_getUrl = Inr this
     \<and> onKeyPress' 115 this = Inr solo_demo"
proof -
  let ?init = "buildCells'
            \<lparr>offsetWidth = 640, offsetHeight = 480,
             sourceUrls' = [''cam0/''], resolutions' = defaultResolutions', getUrl' = demo_getUrl,
             tileScaleWidth' = 160, tileScaleHeight' = 120,
             gridWidthCells' = Some (Finite 0), gridHeightCells' = Some (Finite 0),
             imgWidthPx' = Some 0, imgHeightPx' = Some 0, constraint' = None,
             containerImgWidthPx' = Some 0, ctonainerImgHeightPx' = Some 0,
             containerImgHeightPx' = None, containerConstraint' = None,
             selected' = None, scanning' = False, cells' = [], dom_log = []\<rparr>"
  let ?built = "solo_demo\<lparr>selected' := None, scanning' := False,
                   cells' := [\<lparr>className = [],
                               imgs = [''cam0/mjpg/video.mjpg?resolution=640x480'']\<rparr>]\<rparr>"
  have n: "new_CameraGrid 640 480 [''cam0/''] None demo_getUrl = rebuildIfNeeded' ?init"
    by (simp add: new_CameraGrid_def catalog_of_def Let_def js_index_def defaultResolutions'_def)
  have g: "calculateGrid' ?init =
     \<lparr>gridWidthCells = Some (Finite 1), gridHeightCells = Some (Finite 1),
      constraint = Some Height, containerConstraint = Height,
      cellWidthPx = Finite 640, cellHeightPx = Finite 480\<rparr>"
    by (rule solo_calculateGrid) (simp add: geometry_def buildCells'_def numTiles_def)
  have r: "resolutions' ?init = defaultResolutions'" by (simp add: buildCells'_def)
  have c1: "findMinimumResolution_num ?init (cellWidthPx (calculateGrid' ?init))
              (cellHeightPx (calculateGrid' ?init)) = Some \<lparr>imgWidthPx = 640, imgHeightPx = 480\<rparr>"
    by (simp add: g findMinimumResolution_num_Finite demo_findMinimumResolution[OF r])
  have c2: "findMinimumResolution_num ?init (Finite (offsetWidth ?init))
              (Finite (offsetHeight ?init)) = Some \<lparr>imgWidthPx = 640, imgHeightPx = 480\<rparr>"
    using demo_findMinimumResolution(3)[OF r]
    by (simp add: buildCells'_def findMinimumResolution_num_Finite)
  have "rebuildIfNeeded' ?init =
          andThen (rebuild_resolution \<lparr>imgWidthPx = 640, imgHeightPx = 480\<rparr>
                     (rebuild_containerConstraint (calculateGrid' ?init)
                        (rebuild_constraint (calculateGrid' ?init) ?init)))
            (\<lambda>this. andThen (rebuild_containerResolution \<lparr>imgWidthPx = 640, imgHeightPx = 480\<rparr> this)
                      (rebuild_grid (calculateGrid' ?init)))"
    by (simp only: rebuildIfNeeded'_def Let_def c1 c2 option.case)
  also have "\<dots> = Inr ?built"
    unfolding g
    by (simp add: buildCells'_def pass_defs solo_demo_def)
  finally have b: "new_CameraGrid 640 480 [''cam0/''] None demo_getUrl = Inr ?built"
    using n by simp
  have "onKeyPress' 115 ?built = Inr solo_demo"
    by (simp add: onKeyPress_s fromCharCode_def)
      (simp add: solo_demo_def setSelected'_def select_toggle_def select_refresh_def
        andThen_def onCell_def js_index_def addCSSClass'_def)
  with b show ?thesis by blast
qed

lemma new_CameraGrid_pair:
  "new_CameraGrid 640 480 [''cam0/'', ''cam1/''] None demo_getUrl = Inr pair_demo"
proof -
  let ?init = "buildCells'
            \<lparr>offsetWidth = 640, offsetHeight = 480,
             sourceUrls' = [''cam0/'', ''cam1/''], resolutions' = defaultResolutions',
             getUrl' = demo_getUrl,
             tileScaleWidth' = 160, tileScaleHeight' = 120,
             gridWidthCells' = Some (Finite 0), gridHeightCells' = Some (Finite 0),
             imgWidthPx' = Some 0, imgHeightPx' = Some 0, constraint' = None,
             containerImgWidthPx' = Some 0, ctonainerImgHeightPx' = Some 0,
             containerImgHeightPx' = None, containerConstraint' = None,
             selected' = None, scanning' = False, cells' = [], dom_log = []\<rparr>"
  have n: "new_CameraGrid 640 480 [''cam0/'', ''cam1/''] None demo_getUrl = rebuildIfNeeded' ?init"
    by (simp add: new_CameraGrid_def catalog_of_def Let_def js_index_def defaultResolutions'_def)
  have g: "calculateGrid' ?init =
     \<lparr>gridWidthCells = Some (Finite 1), gridHeightCells = Some (Finite 2),
      constraint = Some Height, containerConstraint = Height,
      cellWidthPx = Finite 320, cellHeightPx = Finite 240\<rparr>"
    by (rule pair_calculateGrid) (simp add: geometry_def buildCells'_def numTiles_def)
  have r: "resolutions' ?init = defaultResolutions'" by (simp add: buildCells'_def)
  have c1: "findMinimumResolution_num ?init (cellWidthPx (calculateGrid' ?init))
              (cellHeightPx (calculateGrid' ?init)) = Some \<lparr>imgWidthPx = 320, imgHeightPx = 240\<rparr>"
    by (simp add: g findMinimumResolution_num_Finite demo_findMinimumResolution[OF r])
  have c2: "findMinimumResolution_num ?init (Finite (offsetWidth ?init))
              (Finite (offsetHeight ?init)) = Some \<lparr>imgWidthPx = 640, imgHeightPx = 480\<rparr>"
    using demo_findMinimumResolution(3)[OF r]
    by (simp add: buildCells'_def findMinimumResolution_num_Finite)
  have "rebuildIfNeeded' ?init =
          andThen (rebuild_resolution \<lparr>imgWidthPx = 320, imgHeightPx = 240\<rparr>
                     (rebuild_containerConstraint (calculateGrid' ?init)
                        (rebuild_constraint (calculateGrid' ?init) ?init)))
            (\<lambda>this. andThen (rebuild_containerResolution \<lparr>imgWidthPx = 640, imgHeightPx = 480\<rparr> this)
                      (rebuild_grid (calculateGrid' ?init)))"
    by (simp only: rebuildIfNeeded'_def Let_def c1 c2 option.case)
  also have "\<dots> = Inr pair_demo"
    unfolding g
    by (simp add: buildCells'_def pass_defs pair_demo_def pair_cell_def eval_nat_numeral)
  finally show ?thesis using n by simp
qed

subsection \<open>The digit keys\<close>

lemma digit_code:
  assumes "49 \<le> charCode" and "charCode \<le> 57"
  shows "fromCharCode charCode \<in> {49, 50, 51, 52, 53, 54, 55, 56, 57, 48}"
proof -
  have "charCode mod 65536 = charCode" using assms by simp
  then show ?thesis using assms by (simp add: fromCharCode_def) arith
qed

lemma onKeyPress_digit_moves:
  assumes "well_formed this" and "selection_valid this"
    and "49 \<le> charCode" and "charCode \<le> 57" and "charCode - 49 < numTiles this"
  shows "moves_to this (toggled (selected' this) (charCode - 49)) False (onKeyPress' charCode this)"
proof -
  have len: "length (sourceUrls' this) \<le> length (cells' this)"
    "int (length (cells' this)) = numTiles this"
    using assms(1) by (auto simp: well_formed_def numTiles_def)
  have d: "fromCharCode charCode \<in> {49, 50, 51, 52, 53, 54, 55, 56, 57, 48}"
    by (rule digit_code[OF assms(3,4)])
  have i: "0 \<le> charCode - 49" "charCode - 49 < int (length (cells' this))"
    using assms(3,5) len by simp_all
  have "charCode - 49 \<noteq> -1" using assms(3) by simp
  then have "onKeyPress' charCode this = setSelectedNoScan' (charCode - 49) this"
    using i by (simp add: onKeyPress_digit[OF d])
  with setSelectedNoScan_moves[OF i selection_in_cells[OF assms(1,2)] len(1)]
  show ?thesis by simp
qed

lemma onKeyPress_digit_out_of_range:
  assumes "well_formed this" and "49 \<le> charCode" and "charCode \<le> 57"
    and "\<not> charCode - 49 < numTiles this"
  shows "onKeyPress' charCode this = Inr this"
proof -
  have len: "int (length (cells' this)) = numTiles this"
    using assms(1) by (auto simp: well_formed_def numTiles_def)
  have d: "fromCharCode charCode \<in> {49, 50, 51, 52, 53, 54, 55, 56, 57, 48}"
    by (rule digit_code[OF assms(2,3)])
  have "charCode - 49 \<noteq> -1" using assms(2) by simp
  then show ?thesis using assms(4) len by (simp add: onKeyPress_digit[OF d])
qed

text \<open>
  The key \<^verbatim>\<open>0\<close> addresses index 10, the eleventh tile: with ten tiles it does nothing, and
  no key addresses index 9.
\<close>

lemma onKeyPress_zero:
  "onKeyPress' 48 this =
     (if 10 < int (length (cells' this)) then setSelectedNoScan' 10 this else Inr this)"
proof -
  have "fromCharCode 48 \<in> {49, 50, 51, 52, 53, 54, 55, 56, 57, 48}"
    by (simp add: fromCharCode_def)
  from onKeyPress_digit[OF this] show ?thesis by simp
qed

text \<open>
  C8, as stated: a digit key whose index is within the tile set selects that tile. In the
  scenario of four feeds the key \<^verbatim>\<open>3\<close> selects tile 2, and the same key pressed again,
  with index 2 still within the tile set, leaves nothing selected.
\<close>

theorem onKeyPress_digit_counterexample:
  "well_formed demo \<and> 2 < numTiles demo
   \<and> (\<exists>this1 this2. onKeyPress' 51 demo = Inr this1 \<and> selected' this1 = Some 2
          \<and> onKeyPress' 51 this1 = Inr this2 \<and> selected' this2 = None)"
proof -
  have n: "51 - 49 < numTiles demo" by (simp add: numTiles_def demo_def demo_urls_def)
  from onKeyPress_digit_moves[OF demo_well_formed _ _ n] obtain this1
    where 1: "onKeyPress' 51 demo = Inr this1" "selected' this1 = Some 2"
      "fixture this1 = fixture demo"
    by (auto simp: moves_to_def toggled_def demo_def)
  have w: "well_formed this1" "selection_valid this1" "51 - 49 < numTiles this1"
    using demo_well_formed(1) 1(2,3) n
    by (simp_all add: well_formed_def selection_valid_def fixture_def numTiles_def)
  from onKeyPress_digit_moves[OF w(1,2) _ _ w(3)] obtain this2
    where 2: "onKeyPress' 51 this1 = Inr this2" "selected' this2 = None"
    by (auto simp: moves_to_def toggled_def 1(2))
  from 1 2 n demo_well_formed(1) show ?thesis by auto
qed

text \<open>
  C8, amended: for a key press of a digit from \<^verbatim>\<open>1\<close> to \<^verbatim>\<open>9\<close> (character codes 49 to
  57), the index is the code minus 49, from 0 to 8. When the index is within the tile set
  the handler returns with the scan off and with that tile selected, or with nothing
  selected when that tile was the selected one; when the index is out of range the state
  is unchanged.
\<close>

theorem onKeyPress_digit_toggles:
  assumes "well_formed this" and "selection_valid this"
    and "49 \<le> charCode" and "charCode \<le> 57"
  shows "(charCode - 49 < numTiles this \<longrightarrow>
            (\<exists>this'. onKeyPress' charCode this = Inr this'
               \<and> selected' this' = (if selected' this = Some (charCode - 49) then None
                                    else Some (charCode - 49))
               \<and> \<not> scanning' this' \<and> numTiles this' = numTiles this))
       \<and> (\<not> charCode - 49 < numTiles this \<longrightarrow> onKeyPress' charCode this = Inr this)"
  using onKeyPress_digit_moves[OF assms] onKeyPress_digit_out_of_range[OF assms(1,3,4)]
  by (auto simp: moves_to_def toggled_def fixture_def numTiles_def)

theorem onKeyPress_digit_toggles_witness:
  "well_formed demo \<and> selection_valid demo
   \<and> (\<exists>this'. onKeyPress' 51 demo = Inr this' \<and> selected' this' = Some 2 \<and> \<not> scanning' this')
   \<and> onKeyPress' 56 demo = Inr demo"
proof -
  have n: "numTiles demo = 4" "selected' demo = None"
    by (simp_all add: numTiles_def demo_def demo_urls_def)
  show ?thesis
    using onKeyPress_digit_toggles[OF demo_well_formed, of 51]
      onKeyPress_digit_toggles[OF demo_well_formed, of 56] demo_well_formed n
    by auto
qed

subsection \<open>The resolution requested for a tile\<close>

lemma buildImage_log:
  assumes "buildImage' index this = Inr this'"
  shows "this' = this
       \<or> (dom_log this' = dom_log this @ [RequestImage index (imgUrl index this)]
          \<and> (\<exists>cell. js_index (cells' this) index = Some cell
                \<and> cells' this' = (cells' this)[nat index :=
                     cell\<lparr>imgs := imgs cell @ [imgUrl index this]\<rparr>]))"
  using assms by (auto simp: buildImage'_def split: option.splits if_splits)

text \<open>
  C4: the URL that \<^verbatim>\<open>buildImage_\<close> builds for a tile is the URL builder's at the full-screen
  resolution when the scan is on or the tile is the selected one, and at the grid-cell
  resolution otherwise; and an image that \<^verbatim>\<open>buildImage_\<close> requests has that URL.
\<close>

theorem buildImage_resolution_policy:
  "(scanning' this \<or> selected' this = Some index \<longrightarrow>
      imgUrl index this = getUrl' this (js_index (sourceUrls' this) index)
                            (containerImgWidthPx' this) (containerImgHeightPx' this))
   \<and> (\<not> (scanning' this \<or> selected' this = Some index) \<longrightarrow>
      imgUrl index this = getUrl' this (js_index (sourceUrls' this) index)
                            (imgWidthPx' this) (imgHeightPx' this))
   \<and> (\<forall>this'. buildImage' index this = Inr this' \<longrightarrow>
        this' = this \<or> dom_log this' = dom_log this @ [RequestImage index (imgUrl index this)])"
  using buildImage_log[of index this] by (auto simp: imgUrl_def Let_def)

theorem buildImage_resolution_policy_witness:
  "imgUrl 2 demo = ''cam2/mjpg/video.mjpg?resolution=480x360''
   \<and> imgUrl 2 (demo\<lparr>selected' := Some 2\<rparr>) = ''cam2/mjpg/video.mjpg?resolution=800x600''
   \<and> imgUrl 1 (demo\<lparr>selected' := Some 2, scanning' := True\<rparr>)
        = ''cam1/mjpg/video.mjpg?resolution=800x600''
   \<and> imgUrl 1 (demo\<lparr>selected' := Some 2\<rparr>) = ''cam1/mjpg/video.mjpg?resolution=480x360''"
  using buildImage_resolution_policy[of demo 2]
    buildImage_resolution_policy[of "demo\<lparr>selected' := Some 2\<rparr>" 2]
    buildImage_resolution_policy[of "demo\<lparr>selected' := Some 2, scanning' := True\<rparr>" 1]
    buildImage_resolution_policy[of "demo\<lparr>selected' := Some 2\<rparr>" 1]
  by (simp add: demo_def demo_urls_def js_index_def demo_getUrl_def demo_px_def)


section \<open>The recompute pass\<close>

subsection \<open>Image requests\<close>

lemma imgUrl_frame [simp]: "imgUrl i (t\<lparr>cells' := cs, dom_log := l\<rparr>) = imgUrl i t"
  by (simp add: imgUrl_def Let_def)

lemma displayed_nth:
  "0 \<le> i \<Longrightarrow> i < int (length (cells' t)) \<Longrightarrow>
   displayed t i = (if imgs (cells' t ! nat i) = [] then None
                    else Some (last (imgs (cells' t ! nat i))))"
  by (simp add: displayed_def js_index_in)

text \<open>
  \<^verbatim>\<open>buildImage_\<close> on a tile sends the request of \<open>refresh\<close>, and leaves the tile displaying
  its URL and the other cells as they were.
\<close>

lemma buildImage_exact:
  assumes "0 \<le> i" and "i < int (length (cells' t))"
  shows "\<exists>cs. buildImage' i t = Inr (t\<lparr>cells' := cs, dom_log := dom_log t @ refresh i t\<rparr>)
           \<and> length cs = length (cells' t)
           \<and> (\<forall>j. j \<noteq> nat i \<longrightarrow> cs ! j = cells' t ! j)
           \<and> imgs (cs ! nat i) \<noteq> [] \<and> last (imgs (cs ! nat i)) = imgUrl i t"
proof (cases "imgs (cells' t ! nat i) \<noteq> [] \<and> last (imgs (cells' t ! nat i)) = imgUrl i t")
  case True
  then have "refresh i t = []" using assms by (simp add: refresh_def displayed_nth)
  moreover have "buildImage' i t = Inr t"
    using True assms by (simp add: buildImage'_def js_index_in)
  ultimately show ?thesis using True by (intro exI[of _ "cells' t"]) simp
next
  case False
  let ?cell = "cells' t ! nat i"
  let ?cs = "(cells' t)[nat i := ?cell\<lparr>imgs := imgs ?cell @ [imgUrl i t]\<rparr>]"
  have r: "refresh i t = [RequestImage i (imgUrl i t)]"
    using False assms by (auto simp: refresh_def displayed_nth)
  have "buildImage' i t = Inr (t\<lparr>cells' := ?cs, dom_log := dom_log t @ refresh i t\<rparr>)"
    using False assms by (auto simp: buildImage'_def js_index_in r)
  moreover have "nat i < length (cells' t)" using assms by simp
  ultimately show ?thesis by (intro exI[of _ ?cs]) simp
qed

lemma refresh_other:
  assumes "length cs = length (cells' t)" and "cs ! nat j = cells' t ! nat j"
  shows "refresh j (t\<lparr>cells' := cs, dom_log := l\<rparr>) = refresh j t"
  using assms by (simp add: refresh_def displayed_def js_index_def)

lemma buildImages_from_exact:
  "i + n \<le> length (cells' t) \<Longrightarrow>
   \<exists>cs. buildImages_from n i t
           = Inr (t\<lparr>cells' := cs,
                    dom_log := dom_log t @ concat (map (\<lambda>j. refresh (int j) t) [i..<i + n])\<rparr>)
      \<and> length cs = length (cells' t)
      \<and> (\<forall>j. j < i \<or> i + n \<le> j \<longrightarrow> cs ! j = cells' t ! j)
      \<and> (\<forall>j. i \<le> j \<and> j < i + n \<longrightarrow>
            imgs (cs ! j) \<noteq> [] \<and> last (imgs (cs ! j)) = imgUrl (int j) t)"
proof (induction n arbitrary: i t)
  case 0
  then show ?case by (intro exI[of _ "cells' t"]) auto
next
  case (Suc n)
  from buildImage_exact[of "int i" t] Suc.prems obtain cs1
    where 1: "buildImage' (int i) t
                = Inr (t\<lparr>cells' := cs1, dom_log := dom_log t @ refresh (int i) t\<rparr>)"
      and l1: "length cs1 = length (cells' t)"
      and o1: "\<forall>j. j \<noteq> i \<longrightarrow> cs1 ! j = cells' t ! j"
      and d1: "imgs (cs1 ! i) \<noteq> []" "last (imgs (cs1 ! i)) = imgUrl (int i) t"
    by auto
  let ?t1 = "t\<lparr>cells' := cs1, dom_log := dom_log t @ refresh (int i) t\<rparr>"
  have "Suc i + n \<le> length (cells' ?t1)" using Suc.prems l1 by simp
  from Suc.IH[OF this] obtain cs2
    where 2: "buildImages_from n (Suc i) ?t1
                = Inr (?t1\<lparr>cells' := cs2,
                         dom_log := dom_log ?t1
                           @ concat (map (\<lambda>j. refresh (int j) ?t1) [Suc i..<Suc i + n])\<rparr>)"
      and l2: "length cs2 = length (cells' ?t1)"
      and o2: "\<forall>j. j < Suc i \<or> Suc i + n \<le> j \<longrightarrow> cs2 ! j = cells' ?t1 ! j"
      and d2: "\<forall>j. Suc i \<le> j \<and> j < Suc i + n \<longrightarrow>
                 imgs (cs2 ! j) \<noteq> [] \<and> last (imgs (cs2 ! j)) = imgUrl (int j) ?t1"
    by blast
  have same: "map (\<lambda>j. refresh (int j) ?t1) [Suc i..<Suc (i + n)]
                = map (\<lambda>j. refresh (int j) t) [Suc i..<Suc (i + n)]"
  proof (rule map_cong[OF refl])
    fix j assume "j \<in> set [Suc i..<Suc (i + n)]"
    then have "Suc i \<le> j" by (simp only: set_upt atLeastLessThan_iff)
    then have "j \<noteq> i" by simp
    then show "refresh (int j) ?t1 = refresh (int j) t"
      using o1 l1 by (intro refresh_other) simp_all
  qed
  have upt: "[i..<Suc (i + n)] = i # [Suc i..<Suc (i + n)]" by (simp add: upt_conv_Cons)
  have run: "buildImages_from (Suc n) i t
               = Inr (t\<lparr>cells' := cs2,
                        dom_log := dom_log t
                          @ concat (map (\<lambda>j. refresh (int j) t) [i..<i + Suc n])\<rparr>)"
    by (simp add: 1 2 andThen_def same upt del: upt_Suc)
  have keep: "\<forall>j. j < i \<or> i + Suc n \<le> j \<longrightarrow> cs2 ! j = cells' t ! j"
    using o1 o2 by auto
  have shown: "\<forall>j. i \<le> j \<and> j < i + Suc n \<longrightarrow>
                 imgs (cs2 ! j) \<noteq> [] \<and> last (imgs (cs2 ! j)) = imgUrl (int j) t"
  proof (intro allI impI)
    fix j assume j: "i \<le> j \<and> j < i + Suc n"
    show "imgs (cs2 ! j) \<noteq> [] \<and> last (imgs (cs2 ! j)) = imgUrl (int j) t"
    proof (cases "j = i")
      case True
      then have "cs2 ! j = cs1 ! i" using o2 by simp
      then show ?thesis using d1 True by simp
    next
      case False
      then have "Suc i \<le> j \<and> j < Suc i + n" using j by simp
      with d2 show ?thesis by simp
    qed
  qed
  show ?case using run l1 l2 keep shown by (intro exI[of _ cs2]) simp
qed

lemma buildImages_exact:
  assumes "length (sourceUrls' t) = length (cells' t)"
  shows "\<exists>cs. buildImages' t
           = Inr (t\<lparr>cells' := cs,
                    dom_log := dom_log t
                      @ concat (map (\<lambda>j. refresh (int j) t) [0..<length (sourceUrls' t)])\<rparr>)
      \<and> length cs = length (cells' t)
      \<and> (\<forall>j < length cs. imgs (cs ! j) \<noteq> [] \<and> last (imgs (cs ! j)) = imgUrl (int j) t)"
  using buildImages_from_exact[of 0 "length (sourceUrls' t)" t] assms
  by (auto simp: buildImages'_def)


lemma refresh_is_request: "list_all is_request (refresh i t)"
  by (simp add: refresh_def)

lemma refreshes_are_requests:
  "list_all is_request (concat (map (\<lambda>j. refresh (int j) t) js))"
  by (induction js) (simp_all add: refresh_is_request)

lemma requests_are_no_styles:
  "list_all is_request ops \<Longrightarrow> \<not> list_ex (is_style r) ops \<and> \<not> list_ex is_grid ops"
proof (induction ops)
  case Nil
  then show ?case by simp
next
  case (Cons op ops)
  then show ?case by (cases op) simp_all
qed

lemma filter_requests: "list_all is_request ops \<Longrightarrow> filter is_request ops = ops"
  by (induction ops) simp_all

text \<open>What a request depends on.\<close>

lemma refresh_cong:
  assumes "cells' a = cells' b" and "sourceUrls' a = sourceUrls' b"
    and "scanning' a = scanning' b" and "selected' a = selected' b" and "getUrl' a = getUrl' b"
    and "imgWidthPx' a = imgWidthPx' b" and "imgHeightPx' a = imgHeightPx' b"
    and "containerImgWidthPx' a = containerImgWidthPx' b"
    and "containerImgHeightPx' a = containerImgHeightPx' b"
  shows "imgUrl i a = imgUrl i b" and "displayed a i = displayed b i"
    and "refresh i a = refresh i b"
  unfolding refresh_def displayed_def imgUrl_def assms by simp_all

subsection \<open>The five steps of the pass\<close>

lemma rebuild_constraints_effects:
  fixes this g
  defines "t \<equiv> rebuild_containerConstraint g (rebuild_constraint g this)"
  shows "dom_log t = dom_log this
           @ (if constraint g \<noteq> constraint' this
              then [SetUpscaleRule ImageScaleRule (constraint g)] else [])
           @ (if Some (containerConstraint g) \<noteq> containerConstraint' this
              then [SetUpscaleRule ContainerImageScaleRule (Some (containerConstraint g))] else [])"
    and "imgWidthPx' t = imgWidthPx' this" and "imgHeightPx' t = imgHeightPx' this"
    and "containerImgWidthPx' t = containerImgWidthPx' this"
    and "containerImgHeightPx' t = containerImgHeightPx' this"
    and "selected' t = selected' this" and "scanning' t = scanning' this"
    and "gridWidthCells' t = gridWidthCells' this" and "gridHeightCells' t = gridHeightCells' this"
    and "cells' t = cells' this" and "sourceUrls' t = sourceUrls' this"
    and "getUrl' t = getUrl' this"
  by (simp_all add: t_def rebuild_constraint_def rebuild_containerConstraint_def
      setUpscaleRule'_def)

lemma rebuild_resolution_exact:
  fixes r t
  defines "ch \<equiv> Some (imgWidthPx r) \<noteq> imgWidthPx' t \<or> Some (imgHeightPx r) \<noteq> imgHeightPx' t"
  assumes len: "length (sourceUrls' t) = length (cells' t)"
  shows "\<exists>t3. rebuild_resolution r t = Inr t3
           \<and> dom_log t3 = dom_log t
               @ (if ch then concat (map (\<lambda>j. refresh (int j) (with_resolution r t))
                                      [0..<length (sourceUrls' t)])
                  else [])
           \<and> (\<forall>s. 0 \<le> s \<and> s < int (length (cells' t)) \<longrightarrow>
                 displayed t3 s = (if ch then Some (imgUrl s (with_resolution r t))
                                   else displayed t s))
           \<and> containerImgWidthPx' t3 = containerImgWidthPx' t
           \<and> containerImgHeightPx' t3 = containerImgHeightPx' t
           \<and> selected' t3 = selected' t \<and> scanning' t3 = scanning' t
           \<and> sourceUrls' t3 = sourceUrls' t \<and> getUrl' t3 = getUrl' t
           \<and> gridWidthCells' t3 = gridWidthCells' t \<and> gridHeightCells' t3 = gridHeightCells' t
           \<and> length (cells' t3) = length (cells' t)"
proof (cases ch)
  case True
  let ?u = "with_resolution r t"
  have lu: "length (sourceUrls' ?u) = length (cells' ?u)"
    using len by (simp add: with_resolution_def)
  from buildImages_exact[OF lu] obtain cs
    where b: "buildImages' ?u
                = Inr (?u\<lparr>cells' := cs,
                         dom_log := dom_log ?u
                           @ concat (map (\<lambda>j. refresh (int j) ?u) [0..<length (sourceUrls' ?u)])\<rparr>)"
      and l: "length cs = length (cells' ?u)"
      and d: "\<forall>j < length cs. imgs (cs ! j) \<noteq> [] \<and> last (imgs (cs ! j)) = imgUrl (int j) ?u"
    by blast
  let ?t3 = "?u\<lparr>cells' := cs,
                 dom_log := dom_log ?u
                   @ concat (map (\<lambda>j. refresh (int j) ?u) [0..<length (sourceUrls' ?u)])\<rparr>"
  have run: "rebuild_resolution r t = Inr ?t3"
    using True b by (simp add: rebuild_resolution_def ch_def with_resolution_def)
  have shown: "\<forall>s. 0 \<le> s \<and> s < int (length (cells' t)) \<longrightarrow>
                 displayed ?t3 s = Some (imgUrl s ?u)"
  proof (intro allI impI)
    fix s assume s: "0 \<le> s \<and> s < int (length (cells' t))"
    then have "nat s < length cs" using l by (simp add: with_resolution_def nat_less_iff)
    with d have "imgs (cs ! nat s) \<noteq> [] \<and> last (imgs (cs ! nat s)) = imgUrl (int (nat s)) ?u"
      by blast
    then show "displayed ?t3 s = Some (imgUrl s ?u)"
      using s l by (simp add: displayed_def js_index_def with_resolution_def)
  qed
  show ?thesis
    using True run shown l
    by (intro exI[of _ ?t3]) (simp add: with_resolution_def)
next
  case False
  then have "rebuild_resolution r t = Inr t" by (simp add: rebuild_resolution_def ch_def)
  then show ?thesis using False by (intro exI[of _ t]) simp
qed

lemma rebuild_containerResolution_exact:
  fixes cr t
  defines "ch \<equiv> Some (imgWidthPx cr) \<noteq> containerImgWidthPx' t
                  \<or> Some (imgHeightPx cr) \<noteq> containerImgHeightPx' t"
  assumes sel: "in_cells t (selected' t)"
  shows "\<exists>t4. rebuild_containerResolution cr t = Inr t4
           \<and> dom_log t4 = dom_log t
               @ (if ch then (case selected' t of
                                None \<Rightarrow> []
                              | Some s \<Rightarrow> refresh s (with_containerResolution cr t))
                  else [])
           \<and> gridWidthCells' t4 = gridWidthCells' t \<and> gridHeightCells' t4 = gridHeightCells' t"
proof (cases ch)
  case True
  let ?u = "with_containerResolution cr t"
  show ?thesis
  proof (cases "selected' t")
    case None
    then have "rebuild_containerResolution cr t = Inr ?u"
      using True
      by (simp add: rebuild_containerResolution_def Let_def ch_def with_containerResolution_def)
    then show ?thesis
      using True None by (intro exI[of _ ?u]) (simp add: with_containerResolution_def)
  next
    case (Some s)
    with sel have "0 \<le> s" "s < int (length (cells' ?u))"
      by (simp_all add: in_cells_def with_containerResolution_def)
    from buildImage_exact[OF this] obtain cs
      where b: "buildImage' s ?u = Inr (?u\<lparr>cells' := cs, dom_log := dom_log ?u @ refresh s ?u\<rparr>)"
      by blast
    have "rebuild_containerResolution cr t
            = Inr (?u\<lparr>cells' := cs, dom_log := dom_log ?u @ refresh s ?u\<rparr>)"
      using True Some b
      by (simp add: rebuild_containerResolution_def Let_def ch_def with_containerResolution_def)
    then show ?thesis
      using True Some
      by (intro exI[of _ "?u\<lparr>cells' := cs, dom_log := dom_log ?u @ refresh s ?u\<rparr>"])
        (simp add: with_containerResolution_def)
  qed
next
  case False
  then have "rebuild_containerResolution cr t = Inr t"
    by (simp add: rebuild_containerResolution_def ch_def)
  then show ?thesis using False by (intro exI[of _ t]) simp
qed

lemma rebuild_grid_exact:
  assumes "gridWidthCells g = Some (Finite w)" and "w \<le> 2 ^ 53"
    and "gridHeightCells g = Some (Finite h)" and "h \<le> 2 ^ 53"
  shows "\<exists>t5. rebuild_grid g t = Inr t5
           \<and> dom_log t5 = dom_log t
               @ (if js_ne (gridWidthCells g) (gridWidthCells' t)
                     \<or> js_ne (gridHeightCells g) (gridHeightCells' t)
                  then [BuildGrid (gridWidthCells g) (gridHeightCells g)] else [])"
proof -
  let ?u = "t\<lparr>gridWidthCells' := gridWidthCells g, gridHeightCells' := gridHeightCells g\<rparr>"
  have "buildGrid' ?u =
          Inr (?u\<lparr>dom_log := dom_log ?u
                      @ [BuildGrid (gridWidthCells' ?u) (gridHeightCells' ?u)]\<rparr>)"
    using assms by (intro buildGrid_returns[of ?u w h]) simp_all
  then show ?thesis by (simp add: rebuild_grid_def)
qed

subsection \<open>The pass as a whole\<close>

lemma rebuildIfNeeded_unchanged:
  assumes "\<not> constraint_changed this" and "\<not> containerConstraint_changed this"
    and "\<not> resolution_changed this" and "\<not> containerResolution_changed this"
    and "\<not> shape_changed this"
  shows "rebuildIfNeeded' this = Inr this"
proof -
  let ?g = "calculateGrid' this"
  from assms(3) obtain r
    where r: "findMinimumResolution_num this (cellWidthPx ?g) (cellHeightPx ?g) = Some r"
      "Some (imgWidthPx r) = imgWidthPx' this" "Some (imgHeightPx r) = imgHeightPx' this"
    by (auto simp: resolution_changed_def split: option.splits)
  from assms(4) obtain cr
    where cr: "findMinimumResolution_num this (Finite (offsetWidth this))
                 (Finite (offsetHeight this)) = Some cr"
      "Some (imgWidthPx cr) = containerImgWidthPx' this"
      "Some (imgHeightPx cr) = containerImgHeightPx' this"
    by (auto simp: containerResolution_changed_def split: option.splits)
  have 1: "rebuild_containerConstraint ?g (rebuild_constraint ?g this) = this"
    using assms(1,2)
    by (simp add: constraint_changed_def containerConstraint_changed_def
        rebuild_constraint_def rebuild_containerConstraint_def)
  have 2: "rebuild_resolution r this = Inr this" using r(2,3) by (simp add: rebuild_resolution_def)
  have 3: "rebuild_containerResolution cr this = Inr this"
    using cr(2,3) by (simp add: rebuild_containerResolution_def)
  have 4: "rebuild_grid ?g this = Inr this"
    using assms(5) by (simp add: shape_changed_def rebuild_grid_def)
  show ?thesis by (simp add: rebuildIfNeeded'_def Let_def r(1) cr(1) 1 2 3 4 andThen_def)
qed

text \<open>
  The commands of a pass, in order: the two style rules, the requests for the tiles at the
  new grid-cell resolution, the request for the selected tile at the new full-screen
  resolution, the layout of the grid; each present when the quantity it follows changed.
\<close>

lemma rebuildIfNeeded_exact:
  assumes "well_formed this" and "in_cells this (selected' this)" and "geometry_ok this"
  shows "\<exists>this' r cr.
           rebuildIfNeeded' this = Inr this'
         \<and> findMinimumResolution_num this (cellWidthPx (calculateGrid' this))
             (cellHeightPx (calculateGrid' this)) = Some r
         \<and> findMinimumResolution_num this (Finite (offsetWidth this))
             (Finite (offsetHeight this)) = Some cr
         \<and> effects this this' =
               (if constraint_changed this
                then [SetUpscaleRule ImageScaleRule (constraint (calculateGrid' this))] else [])
               @ (if containerConstraint_changed this
                  then [SetUpscaleRule ContainerImageScaleRule
                          (Some (containerConstraint (calculateGrid' this)))] else [])
               @ (if resolution_changed this
                  then concat (map (\<lambda>j. refresh (int j) (with_resolution r this))
                                 [0..<length (sourceUrls' this)])
                  else [])
               @ (if containerResolution_changed this
                  then (case selected' this of
                          None \<Rightarrow> []
                        | Some s \<Rightarrow>
                            if (if resolution_changed this
                                then Some (imgUrl s (with_resolution r this))
                                else displayed this s)
                               = Some (imgUrl s (with_containerResolution cr this))
                            then []
                            else [RequestImage s (imgUrl s (with_containerResolution cr this))])
                  else [])
               @ (if shape_changed this
                  then [BuildGrid (gridWidthCells (calculateGrid' this))
                          (gridHeightCells (calculateGrid' this))] else [])"
proof -
  let ?g = "calculateGrid' this"
  let ?t = "rebuild_containerConstraint ?g (rebuild_constraint ?g this)"
  note t = rebuild_constraints_effects[of ?g this]
  have ne: "resolutions' this \<noteq> []" and len: "length (sourceUrls' this) = length (cells' this)"
    using assms(1) by (simp_all add: well_formed_def)
  obtain r where r: "findMinimumResolution_num this (cellWidthPx ?g) (cellHeightPx ?g) = Some r"
    using findMinimumResolution_num_Some[OF ne] by blast
  obtain cr where cr: "findMinimumResolution_num this (Finite (offsetWidth this))
                         (Finite (offsetHeight this)) = Some cr"
    using findMinimumResolution_num_Some[OF ne] by blast
  have rch: "resolution_changed this
               = (Some (imgWidthPx r) \<noteq> imgWidthPx' ?t \<or> Some (imgHeightPx r) \<noteq> imgHeightPx' ?t)"
    by (simp add: resolution_changed_def r t)
  have cch: "containerResolution_changed this
               = (Some (imgWidthPx cr) \<noteq> containerImgWidthPx' ?t
                  \<or> Some (imgHeightPx cr) \<noteq> containerImgHeightPx' ?t)"
    by (simp add: containerResolution_changed_def cr t)
  have rch': "resolution_changed this
               = (Some (imgWidthPx r) \<noteq> imgWidthPx' this \<or> Some (imgHeightPx r) \<noteq> imgHeightPx' this)"
    by (simp add: resolution_changed_def r)
  have cch': "containerResolution_changed this
               = (Some (imgWidthPx cr) \<noteq> containerImgWidthPx' this
                  \<or> Some (imgHeightPx cr) \<noteq> containerImgHeightPx' this)"
    by (simp add: containerResolution_changed_def cr)
  from calculateGrid_shape[OF assms(3)] obtain c r' :: int
    where shape: "gridWidthCells ?g = Some (Finite (of_int c))"
      "gridHeightCells ?g = Some (Finite (of_int r'))" and b: "c \<le> 2 ^ 50" "r' \<le> 2 ^ 50"
    by blast
  have small: "real_of_int c \<le> 2 ^ 53" "real_of_int r' \<le> 2 ^ 53"
  proof -
    have "c \<le> 2 ^ 53" "r' \<le> 2 ^ 53" using b by simp_all
    then show "real_of_int c \<le> 2 ^ 53" "real_of_int r' \<le> 2 ^ 53"
      by (simp_all only: of_int_le_numeral_power_cancel_iff)
  qed
  \<comment> \<open>the requests at the new grid-cell resolution\<close>
  have lt: "length (sourceUrls' ?t) = length (cells' ?t)" using len by (simp add: t)
  let ?rch = "Some (imgWidthPx r) \<noteq> imgWidthPx' ?t \<or> Some (imgHeightPx r) \<noteq> imgHeightPx' ?t"
  from rebuild_resolution_exact[OF lt, of r] obtain t3
    where 3: "rebuild_resolution r ?t = Inr t3"
      "dom_log t3 = dom_log ?t
         @ (if ?rch
            then concat (map (\<lambda>j. refresh (int j) (with_resolution r ?t))
                           [0..<length (sourceUrls' ?t)])
            else [])"
      "\<forall>s. 0 \<le> s \<and> s < int (length (cells' ?t)) \<longrightarrow>
           displayed t3 s = (if ?rch
                             then Some (imgUrl s (with_resolution r ?t)) else displayed ?t s)"
      "containerImgWidthPx' t3 = containerImgWidthPx' ?t"
      "containerImgHeightPx' t3 = containerImgHeightPx' ?t"
      "selected' t3 = selected' ?t" "scanning' t3 = scanning' ?t"
      "sourceUrls' t3 = sourceUrls' ?t" "getUrl' t3 = getUrl' ?t"
      "gridWidthCells' t3 = gridWidthCells' ?t" "gridHeightCells' t3 = gridHeightCells' ?t"
      "length (cells' t3) = length (cells' ?t)"
    by (elim exE conjE) (rule that, assumption+)
  have same_r: "\<And>i. refresh i (with_resolution r ?t) = refresh i (with_resolution r this)"
    "\<And>i. imgUrl i (with_resolution r ?t) = imgUrl i (with_resolution r this)"
    "\<And>i. displayed ?t i = displayed this i"
    by (rule refresh_cong; simp add: t with_resolution_def)+
  \<comment> \<open>the request at the new full-screen resolution\<close>
  have i3: "in_cells t3 (selected' t3)"
    using assms(2) 3(6,12) by (simp add: in_cells_def t split: option.splits)
  let ?cch = "Some (imgWidthPx cr) \<noteq> containerImgWidthPx' t3
                \<or> Some (imgHeightPx cr) \<noteq> containerImgHeightPx' t3"
  have cch3: "containerResolution_changed this = ?cch" by (simp add: cch 3(4,5))
  from rebuild_containerResolution_exact[OF i3, of cr] obtain t4
    where 4: "rebuild_containerResolution cr t3 = Inr t4"
      "dom_log t4 = dom_log t3
         @ (if ?cch
            then (case selected' t3 of
                    None \<Rightarrow> [] | Some s \<Rightarrow> refresh s (with_containerResolution cr t3))
            else [])"
      "gridWidthCells' t4 = gridWidthCells' t3" "gridHeightCells' t4 = gridHeightCells' t3"
    by (elim exE conjE) (rule that, assumption+)
  have D: "(case selected' t3 of
              None \<Rightarrow> [] | Some s \<Rightarrow> refresh s (with_containerResolution cr t3))
           = (case selected' this of
                None \<Rightarrow> []
              | Some s \<Rightarrow>
                  if (if resolution_changed this
                      then Some (imgUrl s (with_resolution r this))
                      else displayed this s)
                     = Some (imgUrl s (with_containerResolution cr this))
                  then []
                  else [RequestImage s (imgUrl s (with_containerResolution cr this))])"
  proof (cases "selected' this")
    case None
    then show ?thesis by (simp add: 3(6) t)
  next
    case (Some s)
    with assms(2) have s: "0 \<le> s \<and> s < int (length (cells' ?t))"
      by (simp add: in_cells_def t)
    have u: "imgUrl s (with_containerResolution cr t3)
               = imgUrl s (with_containerResolution cr this)"
      using Some by (simp add: imgUrl_def with_containerResolution_def 3 t)
    have "displayed (with_containerResolution cr t3) s = displayed t3 s"
      by (simp add: displayed_def with_containerResolution_def)
    also have "\<dots> = (if resolution_changed this
                       then Some (imgUrl s (with_resolution r this)) else displayed this s)"
      using 3(3) s by (simp add: same_r rch)
    finally show ?thesis using Some by (simp add: 3(6) t refresh_def u)
  qed
  \<comment> \<open>the layout\<close>
  from rebuild_grid_exact[OF shape(1) small(1) shape(2) small(2), of t4] obtain t5
    where 5: "rebuild_grid ?g t4 = Inr t5"
      "dom_log t5 = dom_log t4
         @ (if js_ne (gridWidthCells ?g) (gridWidthCells' t4)
               \<or> js_ne (gridHeightCells ?g) (gridHeightCells' t4)
            then [BuildGrid (gridWidthCells ?g) (gridHeightCells ?g)] else [])"
    by blast
  have run: "rebuildIfNeeded' this = Inr t5"
    by (simp add: rebuildIfNeeded'_def Let_def r cr 3(1) 4(1) 5(1) andThen_def)
  have log: "dom_log t5 = dom_log this
               @ (if constraint_changed this
                  then [SetUpscaleRule ImageScaleRule (constraint ?g)] else [])
               @ (if containerConstraint_changed this
                  then [SetUpscaleRule ContainerImageScaleRule (Some (containerConstraint ?g))]
                  else [])
               @ (if resolution_changed this
                  then concat (map (\<lambda>j. refresh (int j) (with_resolution r this))
                                 [0..<length (sourceUrls' this)])
                  else [])
               @ (if containerResolution_changed this
                  then (case selected' this of
                          None \<Rightarrow> []
                        | Some s \<Rightarrow>
                            if (if resolution_changed this
                                then Some (imgUrl s (with_resolution r this))
                                else displayed this s)
                               = Some (imgUrl s (with_containerResolution cr this))
                            then []
                            else [RequestImage s (imgUrl s (with_containerResolution cr this))])
                  else [])
               @ (if shape_changed this
                  then [BuildGrid (gridWidthCells ?g) (gridHeightCells ?g)] else [])"
    unfolding 5(2) 4(2,3,4) 3(2,4,5,10,11) D same_r t
    by (simp add: constraint_changed_def containerConstraint_changed_def shape_changed_def
        rch' cch')
  show ?thesis
    using run r cr by (intro exI[of _ t5] exI[of _ r] exI[of _ cr]) (simp add: effects_def log)
qed


subsection \<open>The solve of four feeds in 1000 by 700\<close>

lemma wide_ideal:
  assumes "geometry this = (1000, 700, 160, 120, 4)"
  shows "between (93 / 100) (94 / 100) (scaleFactor this)"
    and "between (203 / 100) (22 / 10) (gridWidth this)"
    and "between (18 / 10) (196 / 100) (gridHeight this)"
proof -
  have g: "offsetWidth this = 1000" "offsetHeight this = 700" "tileScaleWidth' this = 160"
    "tileScaleHeight' this = 120" "numTiles this = 4"
    using assms by (simp_all add: geometry_def)
  have a: "between (583 / 100) (584 / 100) (num_div (Finite 700) (Finite 120))"
    by (rule between_div[OF exactly exactly]) simp_all
  have b: "between (624 / 100) (626 / 100) (num_div (Finite 1000) (Finite 160))"
    by (rule between_div[OF exactly exactly]) simp_all
  show s: "between (93 / 100) (94 / 100) (scaleFactor this)"
    unfolding scaleFactor_def g by (rule between_div[OF a b]) simp_all
  have q: "between (42 / 10) (44 / 10) (num_div (Finite 4) (scaleFactor this))"
    by (rule between_div[OF exactly s]) simp_all
  have "between (203 / 100) (22 / 10) (Math_sqrt (num_div (Finite 4) (scaleFactor this)))"
    by (rule between_sqrt[OF q, where sl = "204 / 100" and sh = "21 / 10"])
      (simp_all add: power2_eq_square)
  then show "between (203 / 100) (22 / 10) (gridWidth this)"
    by (simp add: gridWidth_def g)
  have p: "between (37 / 10) (38 / 10) (num_mul (scaleFactor this) (Finite 4))"
    by (rule between_mul[OF s exactly]) simp_all
  have "between (18 / 10) (196 / 100) (Math_sqrt (num_mul (scaleFactor this) (Finite 4)))"
    by (rule between_sqrt[OF p, where sl = "19 / 10" and sh = "195 / 100"])
      (simp_all add: power2_eq_square)
  then show "between (18 / 10) (196 / 100) (gridHeight this)"
    by (simp add: gridHeight_def g)
qed

lemma wide_gridOptions:
  assumes "geometry this = (1000, 700, 160, 120, 4)"
  shows "gridOptions this = [(Finite 3, Finite 1), (Finite 2, Finite 2), (Finite 3, Finite 2)]"
proof -
  note i = wide_ideal[OF assms]
  have "Math_ceil (gridWidth this) = Finite (real_of_int 3)"
    by (rule between_ceil[OF i(2)]) simp_all
  moreover have "Math_floor (gridWidth this) = Finite (real_of_int 2)"
    by (rule between_floor[OF i(2)]) simp_all
  moreover have "Math_ceil (gridHeight this) = Finite (real_of_int 2)"
    by (rule between_ceil[OF i(3)]) simp_all
  moreover have "Math_floor (gridHeight this) = Finite (real_of_int 1)"
    by (rule between_floor[OF i(3)]) simp_all
  ultimately show ?thesis by (simp add: gridOptions_def)
qed

lemma wide_scales:
  assumes "geometry this = (1000, 700, 160, 120, 4)"
  shows "between (312 / 100) (313 / 100) (widthScale this (Finite 2, Finite 2))"
    and "between (291 / 100) (292 / 100) (heightScale this (Finite 2, Finite 2))"
    and "between (208 / 100) (209 / 100) (widthScale this (Finite 3, Finite 2))"
    and "heightScale this (Finite 3, Finite 2) = heightScale this (Finite 2, Finite 2)"
proof -
  have g: "offsetWidth this = 1000" "offsetHeight this = 700" "tileScaleWidth' this = 160"
    "tileScaleHeight' this = 120" "numTiles this = 4"
    using assms by (simp_all add: geometry_def)
  have "between (312 / 100) (313 / 100) (num_div (Finite 500) (Finite 160))"
    by (rule between_div[OF exactly exactly]) simp_all
  then show "between (312 / 100) (313 / 100) (widthScale this (Finite 2, Finite 2))"
    by (simp add: widthScale_def g)
  have "between (291 / 100) (292 / 100) (num_div (Finite 350) (Finite 120))"
    by (rule between_div[OF exactly exactly]) simp_all
  then show "between (291 / 100) (292 / 100) (heightScale this (Finite 2, Finite 2))"
    by (simp add: heightScale_def g)
  have "between (3333 / 10) (3334 / 10) (num_div (Finite 1000) (Finite 3))"
    by (rule between_div[OF exactly exactly]) simp_all
  from between_div[OF this exactly[of 160], of "208 / 100" "209 / 100"]
  show "between (208 / 100) (209 / 100) (widthScale this (Finite 3, Finite 2))"
    unfolding widthScale_def g fst_conv by simp
  show "heightScale this (Finite 3, Finite 2) = heightScale this (Finite 2, Finite 2)"
    by (simp add: heightScale_def)
qed

lemma wide_grid_search:
  assumes "geometry this = (1000, 700, 160, 120, 4)"
  shows "grid_search this = taken this (Finite 2, Finite 2)"
    and "scale this (Finite 2, Finite 2) = heightScale this (Finite 2, Finite 2)"
    and "constraint_of this (Finite 2, Finite 2) = Height"
proof -
  note sc = wide_scales[OF assms]
  have n: "numTiles this = 4" using assms by (simp add: geometry_def)
  have w22: "\<not> num_less (widthScale this (Finite 2, Finite 2)) (heightScale this (Finite 2, Finite 2))"
    by (rule between_not_less[OF sc(1,2)]) simp
  show s22: "scale this (Finite 2, Finite 2) = heightScale this (Finite 2, Finite 2)"
    and "constraint_of this (Finite 2, Finite 2) = Height"
    using w22 by (simp_all add: scale_def constraint_of_def)
  have w32: "num_less (widthScale this (Finite 3, Finite 2)) (heightScale this (Finite 2, Finite 2))"
    by (rule between_less[OF sc(3,2)]) simp
  then have s32: "scale this (Finite 3, Finite 2) = widthScale this (Finite 3, Finite 2)"
    by (simp add: scale_def sc(4))
  have first: "\<not> num_less (heightScale this (Finite 2, Finite 2)) (Finite 0)"
    "\<not> num_eq (heightScale this (Finite 2, Finite 2)) (Finite 0)"
    using between_not_less[OF sc(2) exactly[of 0]] between_not_eq[OF exactly[of 0] sc(2)]
    by simp_all
  show "grid_search this = taken this (Finite 2, Finite 2)"
    by (simp add: grid_search_def wide_gridOptions[OF assms] grid_step_cases feasible_def
        numCells_def n grid_init_def)
      (simp add: taken_def s22 s32 first w32)
qed

lemma wide_calculateGrid:
  assumes "geometry this = (1000, 700, 160, 120, 4)"
  shows "gridWidthCells (calculateGrid' this) = Some (Finite 2)"
    and "gridHeightCells (calculateGrid' this) = Some (Finite 2)"
    and "constraint (calculateGrid' this) = Some Height"
    and "containerConstraint (calculateGrid' this) = Height"
    and "between 465 468 (cellWidthPx (calculateGrid' this))"
    and "between 349 351 (cellHeightPx (calculateGrid' this))"
proof -
  note gs = wide_grid_search[OF assms] and sc = wide_scales[OF assms]
  have g: "tileScaleWidth' this = 160" "tileScaleHeight' this = 120"
    using assms by (simp_all add: geometry_def)
  show "gridWidthCells (calculateGrid' this) = Some (Finite 2)"
    "gridHeightCells (calculateGrid' this) = Some (Finite 2)"
    "constraint (calculateGrid' this) = Some Height"
    by (simp_all add: calculateGrid'_def Let_def gs taken_def)
  have "\<not> num_less (Finite 1) (scaleFactor this)"
    by (rule between_not_less[OF exactly wide_ideal(1)[OF assms]]) simp
  then show "containerConstraint (calculateGrid' this) = Height"
    by (simp add: calculateGrid'_def Let_def)
  have "between 465 468 (num_mul (Finite 160) (heightScale this (Finite 2, Finite 2)))"
    by (rule between_mul[OF exactly sc(2)]) simp_all
  then show "between 465 468 (cellWidthPx (calculateGrid' this))"
    by (simp add: calculateGrid'_def Let_def gs taken_def g)
  have "between 349 351 (num_mul (Finite 120) (heightScale this (Finite 2, Finite 2)))"
    by (rule between_mul[OF exactly sc(2)]) simp_all
  then show "between 349 351 (cellHeightPx (calculateGrid' this))"
    by (simp add: calculateGrid'_def Let_def gs taken_def g)
qed

subsection \<open>A resize of the four feeds to 1000 by 700\<close>

lemma resized_geometry:
  "geometry (demo\<lparr>offsetWidth := 1000, offsetHeight := 700\<rparr>) = (1000, 700, 160, 120, 4)"
  by (simp add: geometry_def demo_def numTiles_def demo_urls_def)

lemma resized_resolutions:
  "findMinimumResolution_num (demo\<lparr>offsetWidth := 1000, offsetHeight := 700\<rparr>)
     (cellWidthPx (calculateGrid' (demo\<lparr>offsetWidth := 1000, offsetHeight := 700\<rparr>)))
     (cellHeightPx (calculateGrid' (demo\<lparr>offsetWidth := 1000, offsetHeight := 700\<rparr>)))
     = Some \<lparr>imgWidthPx = 480, imgHeightPx = 360\<rparr>"
  "findMinimumResolution_num (demo\<lparr>offsetWidth := 1000, offsetHeight := 700\<rparr>)
     (Finite (offsetWidth (demo\<lparr>offsetWidth := 1000, offsetHeight := 700\<rparr>)))
     (Finite (offsetHeight (demo\<lparr>offsetWidth := 1000, offsetHeight := 700\<rparr>)))
     = Some \<lparr>imgWidthPx = 1024, imgHeightPx = 768\<rparr>"
proof -
  let ?t = "demo\<lparr>offsetWidth := 1000, offsetHeight := 700\<rparr>"
  have r: "resolutions' ?t = defaultResolutions'" by (simp add: demo_def)
  note g = wide_calculateGrid[OF resized_geometry]
  show "findMinimumResolution_num ?t (cellWidthPx (calculateGrid' ?t))
          (cellHeightPx (calculateGrid' ?t)) = Some \<lparr>imgWidthPx = 480, imgHeightPx = 360\<rparr>"
    by (rule default_resolution_480[OF r g(5,6)]) simp_all
  show "findMinimumResolution_num ?t (Finite (offsetWidth ?t)) (Finite (offsetHeight ?t))
          = Some \<lparr>imgWidthPx = 1024, imgHeightPx = 768\<rparr>"
    using demo_findMinimumResolution(2)[OF r] by (simp add: findMinimumResolution_num_Finite)
qed

lemma resized_flags:
  "\<not> constraint_changed (demo\<lparr>offsetWidth := 1000, offsetHeight := 700\<rparr>)"
  "\<not> containerConstraint_changed (demo\<lparr>offsetWidth := 1000, offsetHeight := 700\<rparr>)"
  "\<not> resolution_changed (demo\<lparr>offsetWidth := 1000, offsetHeight := 700\<rparr>)"
  "containerResolution_changed (demo\<lparr>offsetWidth := 1000, offsetHeight := 700\<rparr>)"
  "\<not> shape_changed (demo\<lparr>offsetWidth := 1000, offsetHeight := 700\<rparr>)"
proof -
  let ?t = "demo\<lparr>offsetWidth := 1000, offsetHeight := 700\<rparr>"
  note g = wide_calculateGrid[OF resized_geometry]
  show "\<not> constraint_changed ?t" "\<not> containerConstraint_changed ?t" "\<not> shape_changed ?t"
    by (simp_all add: constraint_changed_def containerConstraint_changed_def shape_changed_def
        js_ne_def g) (simp_all add: demo_def)
  show "\<not> resolution_changed ?t"
    unfolding resolution_changed_def resized_resolutions by (simp add: demo_def)
  show "containerResolution_changed ?t"
    unfolding containerResolution_changed_def resized_resolutions by (simp add: demo_def)
qed

lemma demo_resolutions:
  "findMinimumResolution_num demo (cellWidthPx (calculateGrid' demo))
     (cellHeightPx (calculateGrid' demo)) = Some \<lparr>imgWidthPx = 480, imgHeightPx = 360\<rparr>"
  "findMinimumResolution_num demo (Finite (offsetWidth demo)) (Finite (offsetHeight demo))
     = Some \<lparr>imgWidthPx = 800, imgHeightPx = 600\<rparr>"
proof -
  have r: "resolutions' demo = defaultResolutions'" by (simp add: demo_def)
  note g = quad_calculateGrid[OF demo_geometry(2)]
  show "findMinimumResolution_num demo (cellWidthPx (calculateGrid' demo))
          (cellHeightPx (calculateGrid' demo)) = Some \<lparr>imgWidthPx = 480, imgHeightPx = 360\<rparr>"
    by (rule default_resolution_480[OF r g(5,6)]) simp_all
  have "findMinimumResolution_num demo (Finite 700) (Finite 500)
          = Some \<lparr>imgWidthPx = 800, imgHeightPx = 600\<rparr>"
    using demo_findMinimumResolution(1)[OF r] by (simp add: findMinimumResolution_num_Finite)
  then show "findMinimumResolution_num demo (Finite (offsetWidth demo))
               (Finite (offsetHeight demo)) = Some \<lparr>imgWidthPx = 800, imgHeightPx = 600\<rparr>"
    by (simp add: demo_def)
qed

lemma demo_flags:
  "\<not> constraint_changed demo" "\<not> containerConstraint_changed demo"
  "\<not> resolution_changed demo" "\<not> containerResolution_changed demo" "\<not> shape_changed demo"
proof -
  note g = quad_calculateGrid[OF demo_geometry(2)]
  show "\<not> constraint_changed demo" "\<not> containerConstraint_changed demo" "\<not> shape_changed demo"
    by (simp_all add: constraint_changed_def containerConstraint_changed_def shape_changed_def
        js_ne_def g) (simp_all add: demo_def)
  show "\<not> resolution_changed demo"
    unfolding resolution_changed_def demo_resolutions by (simp add: demo_def)
  show "\<not> containerResolution_changed demo"
    unfolding containerResolution_changed_def demo_resolutions by (simp add: demo_def)
qed

subsection \<open>Side effects and changes\<close>

text \<open>
  C5, as stated: each side effect is triggered exactly when its derived quantity changed.
  The four feeds are resized from 700 by 500 to 1000 by 700 with nothing selected: the
  full-screen resolution changes from 800 by 600 to 1024 by 768, the other four quantities
  keep their values, and the pass sends no command at all; it re-requests an image for the
  full-screen resolution only for a selected tile.
\<close>

theorem rebuildIfNeeded_exactly_when_counterexample:
  "containerResolution_changed (demo\<lparr>offsetWidth := 1000, offsetHeight := 700\<rparr>)
   \<and> selected' demo = None
   \<and> (\<exists>this'. onResize' 1000 700 demo = Inr this'
          \<and> containerImgWidthPx' this' = Some 1024 \<and> containerImgHeightPx' this' = Some 768
          \<and> effects demo this' = [])"
proof -
  let ?t = "demo\<lparr>offsetWidth := 1000, offsetHeight := 700\<rparr>"
  have "rebuildIfNeeded' ?t =
          andThen (rebuild_resolution \<lparr>imgWidthPx = 480, imgHeightPx = 360\<rparr>
                     (rebuild_containerConstraint (calculateGrid' ?t)
                        (rebuild_constraint (calculateGrid' ?t) ?t)))
            (\<lambda>this. andThen (rebuild_containerResolution \<lparr>imgWidthPx = 1024, imgHeightPx = 768\<rparr> this)
                      (rebuild_grid (calculateGrid' ?t)))"
    by (simp only: rebuildIfNeeded'_def Let_def resized_resolutions option.case)
  also have "\<dots> = Inr (?t\<lparr>containerImgWidthPx' := Some 1024, containerImgHeightPx' := Some 768\<rparr>)"
    by (simp add: pass_defs wide_calculateGrid(1-4) geometry_def numTiles_def demo_def
        demo_urls_def)
  finally show ?thesis
    using resized_flags(4) by (simp add: onResize'_def effects_def) (simp add: demo_def)
qed

text \<open>
  C5, amended: in a state of a controller with at least one tile, a catalog with an entry, a
  valid selection, and a container and a tile scale of positive dimensions, the recompute
  pass returns normally, and: when the recomputed grid shape, grid-cell resolution,
  full-screen resolution and both constraint flags all equal the cached values, the state
  is unchanged, so that no command is sent; the style rule of each constraint flag is
  updated exactly when that flag changed; the grid is rebuilt exactly when the grid shape
  changed; the images of all tiles are refreshed exactly when the grid-cell resolution
  changed, and the image of the selected tile is refreshed exactly when the full-screen
  resolution changed and a tile is selected. A refresh re-requests the image of a tile
  unless the cell already displays the URL to request. These are all the commands of the
  pass, in this order: styles, tiles, selected tile, grid.
\<close>

theorem rebuildIfNeeded_side_effects:
  assumes "well_formed this" and "selection_valid this" and "geometry_ok this"
  shows "\<exists>this' r cr.
           rebuildIfNeeded' this = Inr this'
         \<and> findMinimumResolution_num this (cellWidthPx (calculateGrid' this))
             (cellHeightPx (calculateGrid' this)) = Some r
         \<and> findMinimumResolution_num this (Finite (offsetWidth this))
             (Finite (offsetHeight this)) = Some cr
         \<and> (\<not> constraint_changed this \<and> \<not> containerConstraint_changed this
              \<and> \<not> resolution_changed this \<and> \<not> containerResolution_changed this
              \<and> \<not> shape_changed this \<longrightarrow> this' = this)
         \<and> (list_ex (is_style ImageScaleRule) (effects this this') \<longleftrightarrow> constraint_changed this)
         \<and> (list_ex (is_style ContainerImageScaleRule) (effects this this')
              \<longleftrightarrow> containerConstraint_changed this)
         \<and> (list_ex is_grid (effects this this') \<longleftrightarrow> shape_changed this)
         \<and> filter is_request (effects this this') =
               (if resolution_changed this
                then concat (map (\<lambda>j. refresh (int j) (with_resolution r this))
                               [0..<length (sourceUrls' this)])
                else [])
               @ (if containerResolution_changed this
                  then (case selected' this of
                          None \<Rightarrow> []
                        | Some s \<Rightarrow>
                            if (if resolution_changed this
                                then Some (imgUrl s (with_resolution r this))
                                else displayed this s)
                               = Some (imgUrl s (with_containerResolution cr this))
                            then []
                            else [RequestImage s (imgUrl s (with_containerResolution cr this))])
                  else [])
         \<and> effects this this' =
               (if constraint_changed this
                then [SetUpscaleRule ImageScaleRule (constraint (calculateGrid' this))] else [])
               @ (if containerConstraint_changed this
                  then [SetUpscaleRule ContainerImageScaleRule
                          (Some (containerConstraint (calculateGrid' this)))] else [])
               @ filter is_request (effects this this')
               @ (if shape_changed this
                  then [BuildGrid (gridWidthCells (calculateGrid' this))
                          (gridHeightCells (calculateGrid' this))] else [])"
proof -
  let ?A = "if constraint_changed this
            then [SetUpscaleRule ImageScaleRule (constraint (calculateGrid' this))] else []"
  let ?B = "if containerConstraint_changed this
            then [SetUpscaleRule ContainerImageScaleRule
                    (Some (containerConstraint (calculateGrid' this)))] else []"
  let ?E = "if shape_changed this
            then [BuildGrid (gridWidthCells (calculateGrid' this))
                    (gridHeightCells (calculateGrid' this))] else []"
  from rebuildIfNeeded_exact[OF assms(1) selection_in_cells[OF assms(1,2)] assms(3)]
  obtain this' r cr
    where run: "rebuildIfNeeded' this = Inr this'"
      and r: "findMinimumResolution_num this (cellWidthPx (calculateGrid' this))
                (cellHeightPx (calculateGrid' this)) = Some r"
      and cr: "findMinimumResolution_num this (Finite (offsetWidth this))
                 (Finite (offsetHeight this)) = Some cr"
      and eff: "effects this this' =
               ?A @ ?B
               @ (if resolution_changed this
                  then concat (map (\<lambda>j. refresh (int j) (with_resolution r this))
                                 [0..<length (sourceUrls' this)])
                  else [])
               @ (if containerResolution_changed this
                  then (case selected' this of
                          None \<Rightarrow> []
                        | Some s \<Rightarrow>
                            if (if resolution_changed this
                                then Some (imgUrl s (with_resolution r this))
                                else displayed this s)
                               = Some (imgUrl s (with_containerResolution cr this))
                            then []
                            else [RequestImage s (imgUrl s (with_containerResolution cr this))])
                  else [])
               @ ?E"
    by (elim exE conjE) (rule that, assumption+)
  define C where "C = (if resolution_changed this
            then concat (map (\<lambda>j. refresh (int j) (with_resolution r this))
                           [0..<length (sourceUrls' this)])
            else [])"
  define D where "D = (if containerResolution_changed this
            then (case selected' this of
                    None \<Rightarrow> []
                  | Some s \<Rightarrow>
                      if (if resolution_changed this
                          then Some (imgUrl s (with_resolution r this))
                          else displayed this s)
                         = Some (imgUrl s (with_containerResolution cr this))
                      then []
                      else [RequestImage s (imgUrl s (with_containerResolution cr this))])
            else [])"
  have req: "list_all is_request C" "list_all is_request D"
    by (simp_all add: C_def D_def refreshes_are_requests split: option.splits)
  note no = requests_are_no_styles[OF req(1)] requests_are_no_styles[OF req(2)]
  note fl = filter_requests[OF req(1)] filter_requests[OF req(2)]
  have e: "effects this this' = ?A @ ?B @ C @ D @ ?E"
    unfolding C_def D_def by (rule eff)
  have f: "filter is_request (effects this this') = C @ D"
    by (simp add: e fl)
  have same: "\<not> constraint_changed this \<and> \<not> containerConstraint_changed this
                \<and> \<not> resolution_changed this \<and> \<not> containerResolution_changed this
                \<and> \<not> shape_changed this \<longrightarrow> this' = this"
    using rebuildIfNeeded_unchanged[of this] run by auto
  have 1: "list_ex (is_style ImageScaleRule) (effects this this') \<longleftrightarrow> constraint_changed this"
    by (simp add: e no)
  have 2: "list_ex (is_style ContainerImageScaleRule) (effects this this')
             \<longleftrightarrow> containerConstraint_changed this"
    by (simp add: e no)
  have 3: "list_ex is_grid (effects this this') \<longleftrightarrow> shape_changed this"
    by (simp add: e no)
  have 4: "effects this this' = ?A @ ?B @ filter is_request (effects this this') @ ?E"
    unfolding f by (simp add: e)
  note f' = f[unfolded C_def D_def]
  from run r cr same 1 2 3 f' 4 show ?thesis by blast
qed

theorem rebuildIfNeeded_side_effects_witness:
  "well_formed demo \<and> selection_valid demo \<and> geometry_ok demo
   \<and> rebuildIfNeeded' demo = Inr demo \<and> effects demo demo = []"
  using rebuildIfNeeded_side_effects[OF demo_well_formed demo_geometry(1)] demo_flags
    demo_well_formed demo_geometry(1)
  by (auto simp: effects_def)


section \<open>Where the rounding and the range decide\<close>

subsection \<open>Five feeds in 640 by 480\<close>

text \<open>
  The candidates 3x2, 2x3 and 3x3 all have the scale 4/3 in exact arithmetic. Computed,
  the width scale of three columns is one unit in the last place above the height scale of
  three rows, so that 3x2 has the strictly largest scale and no tie is broken.
\<close>

lemma powr_neg_numeral: "(2::real) powr (- numeral n) = 1 / 2 ^ numeral n"
  by (simp add: powr_minus divide_simps flip: powr_realpow)

lemma binary64_rounds:
  assumes "2 powr of_int k \<le> x" and "x < 2 powr (of_int k + 1)" and "- 1022 \<le> k" "k \<le> 1022"
    and u: "2 powr of_int (k - 52) = u" and m: "roundTiesToEven (x / u) = m"
  shows "binary64 x = Finite (of_int m * u)"
  unfolding binary64_eval[OF assms(1-4)] u m ..

lemma third_of_640: "num_div (Finite 640) (Finite 3) = Finite (7505999378950827 / 2 ^ 45)"
proof -
  have "binary64 (640 / 3) = Finite (of_int 7505999378950827 * (1 / 2 ^ 45))"
    by (rule binary64_rounds[where k = 7]) (simp_all add: powr_neg_numeral roundTiesToEven_def)
  then show ?thesis by simp
qed

lemma three_columns:
  "num_div (Finite (7505999378950827 / 2 ^ 45)) (Finite 160) = Finite (6004799503160662 / 2 ^ 52)"
proof -
  have "binary64 (7505999378950827 / 2 ^ 45 / 160)
          = Finite (of_int 6004799503160662 * (1 / 2 ^ 52))"
    by (rule binary64_rounds[where k = 0]) (simp_all add: powr_neg_numeral roundTiesToEven_def)
  then show ?thesis by simp
qed

lemma three_rows: "num_div (Finite 160) (Finite 120) = Finite (6004799503160661 / 2 ^ 52)"
proof -
  have "binary64 (4 / 3) = Finite (of_int 6004799503160661 * (1 / 2 ^ 52))"
    by (rule binary64_rounds[where k = 0]) (simp_all add: powr_neg_numeral roundTiesToEven_def)
  then have "binary64 (4 / 3) = Finite (6004799503160661 / 2 ^ 52)" by simp
  moreover have "num_div (Finite 160) (Finite 120) = binary64 (4 / 3)" by simp
  ultimately show ?thesis by (simp only:)
qed

lemma five_gridOptions:
  assumes "geometry this = (640, 480, 160, 120, 5)"
  shows "gridOptions this = [(Finite 3, Finite 2), (Finite 2, Finite 3), (Finite 3, Finite 3)]"
proof -
  have g: "offsetWidth this = 640" "offsetHeight this = 480" "tileScaleWidth' this = 160"
    "tileScaleHeight' this = 120" "numTiles this = 5"
    using assms by (simp_all add: geometry_def)
  have s: "scaleFactor this = Finite 1" by (simp add: scaleFactor_def g)
  have r: "between (21 / 10) (24 / 10) (Math_sqrt (Finite 5))"
    by (rule between_sqrt[OF exactly, where sl = "22 / 10" and sh = "23 / 10"])
      (simp_all add: power2_eq_square)
  have "Math_ceil (Math_sqrt (Finite 5)) = Finite (real_of_int 3)"
    by (rule between_ceil[OF r]) simp_all
  moreover have "Math_floor (Math_sqrt (Finite 5)) = Finite (real_of_int 2)"
    by (rule between_floor[OF r]) simp_all
  ultimately show ?thesis by (simp add: gridOptions_def gridWidth_def gridHeight_def s g)
qed

lemma five_calculateGrid:
  assumes "geometry this = (640, 480, 160, 120, 5)"
  shows "widthScale this (Finite 3, Finite 2) = Finite (6004799503160662 / 2 ^ 52)"
    and "heightScale this (Finite 2, Finite 3) = Finite (6004799503160661 / 2 ^ 52)"
    and "gridWidthCells (calculateGrid' this) = Some (Finite 3)"
    and "gridHeightCells (calculateGrid' this) = Some (Finite 2)"
    and "constraint (calculateGrid' this) = Some Width"
proof -
  have g: "offsetWidth this = 640" "offsetHeight this = 480" "tileScaleWidth' this = 160"
    "tileScaleHeight' this = 120" "numTiles this = 5"
    using assms by (simp_all add: geometry_def)
  have w3: "widthScale this (Finite 3, h) = Finite (6004799503160662 / 2 ^ 52)" for h
    unfolding widthScale_def g fst_conv third_of_640 three_columns ..
  have "num_div (Finite 480) (Finite 3) = Finite 160" by simp
  then have h3: "heightScale this (w, Finite 3) = Finite (6004799503160661 / 2 ^ 52)" for w
    unfolding heightScale_def g snd_conv by (simp only: three_rows)
  have w2: "widthScale this (Finite 2, h) = Finite 2" for h
    by (simp add: widthScale_def g)
  have h2: "heightScale this (w, Finite 2) = Finite 2" for w
    by (simp add: heightScale_def g)
  show "widthScale this (Finite 3, Finite 2) = Finite (6004799503160662 / 2 ^ 52)" by (rule w3)
  show "heightScale this (Finite 2, Finite 3) = Finite (6004799503160661 / 2 ^ 52)" by (rule h3)
  have sc: "scale this (Finite 3, Finite 2) = Finite (6004799503160662 / 2 ^ 52)"
    "constraint_of this (Finite 3, Finite 2) = Width"
    "scale this (Finite 2, Finite 3) = Finite (6004799503160661 / 2 ^ 52)"
    "scale this (Finite 3, Finite 3) = Finite (6004799503160661 / 2 ^ 52)"
    by (simp_all add: scale_def constraint_of_def w3 h3 w2 h2)
  have gs: "grid_search this = taken this (Finite 3, Finite 2)"
    by (simp add: grid_search_def five_gridOptions[OF assms] grid_step_def numCells_def g
        grid_init_def sc taken_def)
  show "gridWidthCells (calculateGrid' this) = Some (Finite 3)"
    "gridHeightCells (calculateGrid' this) = Some (Finite 2)"
    "constraint (calculateGrid' this) = Some Width"
    by (simp_all add: calculateGrid'_def Let_def gs taken_def sc)
qed

subsection \<open>A container without width\<close>

text \<open>
  With a width of 0 and a positive height the ideal grid is 0 columns by \<^verbatim>\<open>Infinity\<close>
  rows. The product of the two is \<^verbatim>\<open>NaN\<close>, which is not below the number of tiles, and
  the scale 0 is not below the initial maximum: the candidate is taken, and \<^verbatim>\<open>buildGrid_\<close>
  counts rows without end.
\<close>

lemma narrow_calculateGrid:
  assumes "geometry this = (0, 500, 160, 120, 4)"
  shows "gridOptions this = [(Finite 0, PosInf), (Finite 0, PosInf), (Finite 0, PosInf)]"
    and "numCells (Finite 0, PosInf) = NaN"
    and "calculateGrid' this =
           \<lparr>gridWidthCells = Some (Finite 0), gridHeightCells = Some PosInf,
            constraint = Some Height, containerConstraint = Width,
            cellWidthPx = Finite 0, cellHeightPx = Finite 0\<rparr>"
proof -
  have g: "offsetWidth this = 0" "offsetHeight this = 500" "tileScaleWidth' this = 160"
    "tileScaleHeight' this = 120" "numTiles this = 4"
    using assms by (simp_all add: geometry_def)
  have "between (41 / 10) (42 / 10) (num_div (Finite 500) (Finite 120))"
    by (rule between_div[OF exactly exactly]) simp_all
  then obtain a where a: "num_div (Finite 500) (Finite 120) = Finite a" "0 < a"
    by (auto simp: between_def)
  have s: "scaleFactor this = PosInf"
    unfolding scaleFactor_def g a using a(2) by simp
  have w: "gridWidth this = Finite 0" and h: "gridHeight this = PosInf"
    by (simp_all add: gridWidth_def gridHeight_def s g)
  show o: "gridOptions this = [(Finite 0, PosInf), (Finite 0, PosInf), (Finite 0, PosInf)]"
    by (simp add: gridOptions_def w h)
  show c: "numCells (Finite 0, PosInf) = NaN" by (simp add: numCells_def)
  have sc: "scale this (Finite 0, PosInf) = Finite 0"
    "constraint_of this (Finite 0, PosInf) = Height"
    by (simp_all add: scale_def constraint_of_def widthScale_def heightScale_def g)
  have "grid_search this = taken this (Finite 0, PosInf)"
    by (simp add: grid_search_def o grid_step_def c grid_init_def sc taken_def)
  then show "calculateGrid' this =
           \<lparr>gridWidthCells = Some (Finite 0), gridHeightCells = Some PosInf,
            constraint = Some Height, containerConstraint = Width,
            cellWidthPx = Finite 0, cellHeightPx = Finite 0\<rparr>"
    by (simp add: calculateGrid'_def Let_def taken_def sc s g)
qed

lemma narrow_never_returns: "onResize' 0 500 demo = Inl NoReturn"
proof -
  let ?t = "demo\<lparr>offsetWidth := 0, offsetHeight := 500\<rparr>"
  have geo: "geometry ?t = (0, 500, 160, 120, 4)"
    by (simp add: geometry_def demo_def numTiles_def demo_urls_def)
  note g = narrow_calculateGrid(3)[OF geo]
  have c1: "findMinimumResolution_num ?t (cellWidthPx (calculateGrid' ?t))
              (cellHeightPx (calculateGrid' ?t)) = Some \<lparr>imgWidthPx = 160, imgHeightPx = 120\<rparr>"
    unfolding g
    by (simp add: findMinimumResolution_num_Finite findMinimumResolution_first
        firstReaching_def reaches_def demo_def defaultResolutions'_def as_resolution_def)
  have c2: "findMinimumResolution_num ?t (Finite (offsetWidth ?t)) (Finite (offsetHeight ?t))
              = Some \<lparr>imgWidthPx = 160, imgHeightPx = 120\<rparr>"
    by (simp add: findMinimumResolution_num_Finite findMinimumResolution_first
        firstReaching_def reaches_def demo_def defaultResolutions'_def as_resolution_def)
  have "rebuildIfNeeded' ?t =
          andThen (rebuild_resolution \<lparr>imgWidthPx = 160, imgHeightPx = 120\<rparr>
                     (rebuild_containerConstraint (calculateGrid' ?t)
                        (rebuild_constraint (calculateGrid' ?t) ?t)))
            (\<lambda>this. andThen (rebuild_containerResolution \<lparr>imgWidthPx = 160, imgHeightPx = 120\<rparr> this)
                      (rebuild_grid (calculateGrid' ?t)))"
    by (simp only: rebuildIfNeeded'_def Let_def c1 c2 option.case)
  also have "\<dots> = Inl NoReturn"
    unfolding g
    by (simp add: pass_defs buildGrid_rows_diverges demo_def demo_urls_def demo_cell_def
        eval_nat_numeral)
  finally show ?thesis by (simp add: onResize'_def)
qed

subsection \<open>A container without area\<close>

text \<open>
  With a width and a height of 0 every quantity of the solve is \<^verbatim>\<open>NaN\<close>, no comparison
  holds, and the last candidate is taken. \<^verbatim>\<open>NaN\<close> differs from every cached value, itself
  included, so that every pass finds the grid shape changed.
\<close>

lemma empty_calculateGrid:
  assumes "offsetWidth this = 0" and "offsetHeight this = 0"
    and "pixels (tileScaleWidth' this)" and "pixels (tileScaleHeight' this)"
  shows "gridWidthCells (calculateGrid' this) = Some NaN"
    and "gridHeightCells (calculateGrid' this) = Some NaN"
    and "shape_changed this"
proof -
  have tw: "tileScaleWidth' this \<noteq> 0" and th: "tileScaleHeight' this \<noteq> 0"
    using assms(3,4) by (auto simp: pixels_def)
  have s: "scaleFactor this = NaN" by (simp add: scaleFactor_def assms(1,2) tw th)
  have o: "gridOptions this = [(NaN, NaN), (NaN, NaN), (NaN, NaN)]"
    by (simp add: gridOptions_def gridWidth_def gridHeight_def s)
  have sc: "scale this (NaN, NaN) = NaN"
    by (simp add: scale_def widthScale_def heightScale_def)
  have "grid_search this = taken this (NaN, NaN)"
    by (simp add: grid_search_def o grid_step_def numCells_def grid_init_def sc taken_def)
  then show g: "gridWidthCells (calculateGrid' this) = Some NaN"
    "gridHeightCells (calculateGrid' this) = Some NaN"
    by (simp_all add: calculateGrid'_def Let_def taken_def)
  show "shape_changed this"
    by (simp add: shape_changed_def js_ne_def g split: option.splits)
qed


end
